theory Spec2Isabelle
  imports Main "HOL-Library.Word"
begin

section \<open>The skip-list engine of \<open>include/internal/sl_impl.hpp\<close>\<close>

text \<open>
  The engine is pointer code: nodes live on the C++ heap, and every operation reads and
  writes them through raw pointers. The model keeps that shape. A pointer is an optional
  address (\<open>None\<close> is \<open>nullptr\<close>), the heap is a partial map from addresses to nodes,
  \<open>new\<close> hands out the address \<open>brk\<close> and advances it (an address is never handed out
  twice, and memory is not bounded), \<open>delete\<close> removes the address from the map.

  Reading through a null or freed pointer, or indexing \<open>m_next\<close> past the end of the
  array, is undefined behaviour in C++; the model stops there with \<open>Fault\<close>. A failing
  \<open>assert\<close> stops with \<open>AssertFailed\<close>. The \<open>while\<close> loops follow pointers and need not
  terminate on an arbitrary heap: they return an option whose \<open>None\<close> is a loop that
  never returns.

  The value type \<open>T\<close> is any linearly ordered type, and the comparator \<open>m_less\<close> is its
  \<open>operator<\<close> (\<open>std::less<T>\<close>). The sentinels' values
  \<open>std::numeric_limits<T>::min()\<close> and \<open>max()\<close> come from \<open>limits\<close>; the constructor
  takes them as parameters.
\<close>

subsection \<open>Nodes and the heap\<close>

type_synonym addr = nat
type_synonym ptr = "addr option"

record 'a sl_node =
  m_value :: 'a
  m_level :: nat
  m_prev :: ptr
  m_next :: "ptr list"

type_synonym 'a heap = "addr \<Rightarrow> 'a sl_node option"

datatype error = Fault | AssertFailed

text \<open>\<open>sl_node(value, level)\<close>: \<open>level + 1\<close> forward pointers, all null.\<close>

definition new_node :: "'a \<Rightarrow> nat \<Rightarrow> 'a sl_node" where
  "new_node v l = \<lparr>m_value = v, m_level = l, m_prev = None, m_next = replicate (l + 1) None\<rparr>"

text \<open>\<open>p->\<close>: the node a pointer refers to.\<close>

definition load :: "'a heap \<Rightarrow> ptr \<Rightarrow> error + 'a sl_node" where
  "load h p = (case p of None \<Rightarrow> Inl Fault
               | Some a \<Rightarrow> (case h a of None \<Rightarrow> Inl Fault | Some n \<Rightarrow> Inr n))"

text \<open>\<open>n.m_next[i]\<close>, a read.\<close>

definition next_at :: "'a sl_node \<Rightarrow> nat \<Rightarrow> error + ptr" where
  "next_at n i = (if i < length (m_next n) then Inr (m_next n ! i) else Inl Fault)"

text \<open>\<open>p->m_next[i] = q\<close> and \<open>p->m_prev = q\<close>, the writes.\<close>

definition store_next :: "'a heap \<Rightarrow> ptr \<Rightarrow> nat \<Rightarrow> ptr \<Rightarrow> error + 'a heap" where
  "store_next h p i q =
     (case p of None \<Rightarrow> Inl Fault
      | Some a \<Rightarrow> (case h a of None \<Rightarrow> Inl Fault
          | Some n \<Rightarrow> if i < length (m_next n)
                      then Inr (h(a \<mapsto> n\<lparr>m_next := (m_next n)[i := q]\<rparr>))
                      else Inl Fault))"

definition store_prev :: "'a heap \<Rightarrow> ptr \<Rightarrow> ptr \<Rightarrow> error + 'a heap" where
  "store_prev h p q =
     (case p of None \<Rightarrow> Inl Fault
      | Some a \<Rightarrow> (case h a of None \<Rightarrow> Inl Fault
          | Some n \<Rightarrow> Inr (h(a \<mapsto> n\<lparr>m_prev := q\<rparr>))))"

subsection \<open>The engine\<close>

text \<open>
  \<open>m_size\<close> is a \<open>std::size_t\<close>, taken as 64 bits wide: \<open>++m_size\<close> and \<open>--m_size\<close> wrap.
  The level counters are \<open>std::size_t\<close> as well, but they stay between 0 and
  \<open>max_levels + 1\<close>, so they are natural numbers here.
\<close>

record 'a sl_impl =
  heap :: "'a heap"
  brk :: addr
  m_levels :: nat
  m_size :: "64 word"
  m_head :: addr
  m_tail :: addr

definition max_levels :: nat where
  "max_levels = 5"

definition m_less :: "'a::linorder \<Rightarrow> 'a \<Rightarrow> bool" where
  "m_less lhs rhs = (lhs < rhs)"

definition is_less_or_equal :: "'a::linorder \<Rightarrow> 'a \<Rightarrow> bool" where
  "is_less_or_equal lhs rhs = (\<not> m_less rhs lhs)"

definition is_equal :: "'a::linorder \<Rightarrow> 'a \<Rightarrow> bool" where
  "is_equal lhs rhs = (\<not> (m_less lhs rhs \<or> m_less rhs lhs))"

text \<open>
  The constructor: head is allocated first, then tail, each with \<open>max_levels + 1\<close>
  forward pointers; the loop links \<open>m_head->m_next[i]\<close> to the tail for every
  \<open>i \<le> max_levels\<close>.
\<close>

fun init_links :: "'a heap \<Rightarrow> addr \<Rightarrow> addr \<Rightarrow> nat list \<Rightarrow> error + 'a heap" where
  "init_links h hp t [] = Inr h"
| "init_links h hp t (i # ls) =
     (case store_next h (Some hp) i (Some t) of Inl e \<Rightarrow> Inl e
      | Inr h1 \<Rightarrow> (case store_next h1 (Some t) i None of Inl e \<Rightarrow> Inl e
          | Inr h2 \<Rightarrow> init_links h2 hp t ls))"

definition sl_init :: "'a \<Rightarrow> 'a \<Rightarrow> error + 'a sl_impl" where
  "sl_init vmin vmax =
     (let hp = 0; t = 1;
          h0 = (Map.empty(hp \<mapsto> new_node vmin max_levels))(t \<mapsto> new_node vmax max_levels)
      in case init_links h0 hp t [0 ..< max_levels + 1] of Inl e \<Rightarrow> Inl e
         | Inr h1 \<Rightarrow> (case store_prev h1 (Some hp) None of Inl e \<Rightarrow> Inl e
             | Inr h2 \<Rightarrow> (case store_prev h2 (Some t) (Some hp) of Inl e \<Rightarrow> Inl e
                 | Inr h3 \<Rightarrow> Inr \<lparr>heap = h3, brk = 2, m_levels = max_levels, m_size = 0,
                                  m_head = hp, m_tail = t\<rparr>)))"

definition size_sl :: "'a sl_impl \<Rightarrow> 64 word" where
  "size_sl s = m_size s"

definition front_sl :: "'a sl_impl \<Rightarrow> error + ptr" where
  "front_sl s = (case load (heap s) (Some (m_head s)) of Inl e \<Rightarrow> Inl e | Inr n \<Rightarrow> next_at n 0)"

definition back_sl :: "'a sl_impl \<Rightarrow> error + ptr" where
  "back_sl s = (case load (heap s) (Some (m_tail s)) of Inl e \<Rightarrow> Inl e | Inr n \<Rightarrow> Inr (m_prev n))"

subsection \<open>\<open>find\<close> and \<open>find_first\<close>\<close>

text \<open>
  The \<open>while\<close> of \<open>find\<close> at one level. The three conjuncts are evaluated left to right:
  the next pointer is compared with the tail, then the current value with the target,
  and only then is the next node read.
\<close>

partial_function (option) find_scan ::
  "'a::linorder heap \<Rightarrow> addr \<Rightarrow> 'a \<Rightarrow> nat \<Rightarrow> addr \<Rightarrow> (error + addr) option" where
  "find_scan h t v level cur =
     (case load h (Some cur) of Inl e \<Rightarrow> Some (Inl e)
      | Inr c \<Rightarrow> (case next_at c level of Inl e \<Rightarrow> Some (Inl e)
          | Inr nx \<Rightarrow>
              if nx = Some t then Some (Inr cur)
              else if is_equal (m_value c) v then Some (Inr cur)
              else (case nx of None \<Rightarrow> Some (Inl Fault)
                | Some a \<Rightarrow> (case load h (Some a) of Inl e \<Rightarrow> Some (Inl e)
                    | Inr n \<Rightarrow> if is_less_or_equal (m_value n) v
                               then find_scan h t v level a
                               else Some (Inr cur)))))"

declare find_scan.simps [code]

text \<open>
  The \<open>for\<close> over the levels: the counter starts at \<open>m_levels + 1\<close>, is tested against 0
  and decremented before the body.
\<close>

fun find_down :: "'a::linorder heap \<Rightarrow> addr \<Rightarrow> 'a \<Rightarrow> nat \<Rightarrow> addr \<Rightarrow> (error + addr) option" where
  "find_down h t v 0 cur = Some (Inr cur)"
| "find_down h t v (Suc level) cur =
     (case find_scan h t v level cur of None \<Rightarrow> None
      | Some (Inl e) \<Rightarrow> Some (Inl e)
      | Some (Inr c) \<Rightarrow> find_down h t v level c)"

definition find_sl :: "'a::linorder sl_impl \<Rightarrow> 'a \<Rightarrow> (error + addr) option" where
  "find_sl s v = find_down (heap s) (m_tail s) v (m_levels s + 1) (m_head s)"

definition find_first :: "'a::linorder sl_impl \<Rightarrow> 'a \<Rightarrow> (error + ptr) option" where
  "find_first s v =
     (case find_sl s v of None \<Rightarrow> None
      | Some (Inl e) \<Rightarrow> Some (Inl e)
      | Some (Inr a) \<Rightarrow> (case load (heap s) (Some a) of Inl e \<Rightarrow> Some (Inl e)
          | Inr n \<Rightarrow> if \<not> is_equal (m_value n) v then Some (next_at n 0)
                     else Some (Inr (Some a))))"

subsection \<open>\<open>random_level\<close>\<close>

text \<open>
  \<open>toss_a_coin\<close> reads \<open>rand()\<close>, the C library's global generator. The numbers one call
  of \<open>random_level\<close> draws are a parameter \<open>rnd\<close>: \<open>rnd i\<close> is the result of its
  \<open>i\<close>-th call of \<open>rand()\<close>.
\<close>

definition toss_a_coin :: "nat \<Rightarrow> bool" where
  "toss_a_coin r = (r mod 2 = 0)"

function random_loop :: "(nat \<Rightarrow> nat) \<Rightarrow> nat \<Rightarrow> nat \<Rightarrow> nat" where
  "random_loop rnd i level =
     (if level < max_levels \<and> toss_a_coin (rnd i) then random_loop rnd (Suc i) (Suc level)
      else level)"
  by pat_completeness auto
termination
  by (relation "measure (\<lambda>(rnd, i, level). max_levels - level)") auto

definition random_level :: "(nat \<Rightarrow> nat) \<Rightarrow> nat" where
  "random_level rnd = random_loop rnd 0 1"

subsection \<open>\<open>insert\<close>\<close>

text \<open>The \<open>while\<close> of \<open>insert\<close> at one level, with its \<open>assert\<close> after each step.\<close>

partial_function (option) insert_scan ::
  "'a::linorder heap \<Rightarrow> addr \<Rightarrow> 'a \<Rightarrow> nat \<Rightarrow> addr \<Rightarrow> (error + addr) option" where
  "insert_scan h t v level cur =
     (case load h (Some cur) of Inl e \<Rightarrow> Some (Inl e)
      | Inr c \<Rightarrow> (case next_at c level of Inl e \<Rightarrow> Some (Inl e)
          | Inr nx \<Rightarrow>
              if nx = Some t then Some (Inr cur)
              else (case nx of None \<Rightarrow> Some (Inl Fault)
                | Some a \<Rightarrow> (case load h (Some a) of Inl e \<Rightarrow> Some (Inl e)
                    | Inr n \<Rightarrow> if m_less (m_value n) v
                               then (if level \<le> m_level n then insert_scan h t v level a
                                     else Some (Inl AssertFailed))
                               else Some (Inr cur)))))"

declare insert_scan.simps [code]

text \<open>The splice \<open>if (level <= node_level) { ... }\<close> at one level.\<close>

definition insert_link :: "'a heap \<Rightarrow> addr \<Rightarrow> nat \<Rightarrow> nat \<Rightarrow> addr \<Rightarrow> error + 'a heap" where
  "insert_link h new_n node_level level cur =
     (if level \<le> node_level then
        (case load h (Some cur) of Inl e \<Rightarrow> Inl e
         | Inr c \<Rightarrow> (case next_at c level of Inl e \<Rightarrow> Inl e
             | Inr nx \<Rightarrow>
                 if nx = None then Inl AssertFailed
                 else (case store_next h (Some new_n) level nx of Inl e \<Rightarrow> Inl e
                   | Inr h1 \<Rightarrow> store_next h1 (Some cur) level (Some new_n))))
      else Inr h)"

text \<open>
  The \<open>do { --level; ... } while (level != 0)\<close>: \<open>level\<close> is the counter after the
  decrement.
\<close>

fun insert_down ::
  "'a::linorder heap \<Rightarrow> addr \<Rightarrow> 'a \<Rightarrow> addr \<Rightarrow> nat \<Rightarrow> nat \<Rightarrow> addr \<Rightarrow> (error + 'a heap \<times> addr) option" where
  "insert_down h t v new_n node_level 0 cur =
     (case insert_scan h t v 0 cur of None \<Rightarrow> None
      | Some (Inl e) \<Rightarrow> Some (Inl e)
      | Some (Inr c) \<Rightarrow> (case insert_link h new_n node_level 0 c of Inl e \<Rightarrow> Some (Inl e)
          | Inr h1 \<Rightarrow> Some (Inr (h1, c))))"
| "insert_down h t v new_n node_level (Suc level) cur =
     (case insert_scan h t v (Suc level) cur of None \<Rightarrow> None
      | Some (Inl e) \<Rightarrow> Some (Inl e)
      | Some (Inr c) \<Rightarrow> (case insert_link h new_n node_level (Suc level) c of Inl e \<Rightarrow> Some (Inl e)
          | Inr h1 \<Rightarrow> insert_down h1 t v new_n node_level level c))"

text \<open>
  \<open>insert(value, hint)\<close>. The node is allocated before the hint is read. After the
  descent the two back_sl pointers at the bottom level are set and the size is incremented.
  The result is the new state and the handle of the new node.
\<close>

definition insert_sl ::
  "'a::linorder sl_impl \<Rightarrow> 'a \<Rightarrow> (nat \<Rightarrow> nat) \<Rightarrow> ptr \<Rightarrow> (error + 'a sl_impl \<times> addr) option" where
  "insert_sl s v rnd hint =
     (let node_level = random_level rnd;
          new_n = brk s;
          h0 = (heap s)(new_n \<mapsto> new_node v node_level);
          start = (case hint of None \<Rightarrow> m_head s | Some a \<Rightarrow> a)
      in case load h0 (Some start) of Inl e \<Rightarrow> Some (Inl e)
         | Inr st \<Rightarrow>
            (case insert_down h0 (m_tail s) v new_n node_level (m_level st) start of None \<Rightarrow> None
             | Some (Inl e) \<Rightarrow> Some (Inl e)
             | Some (Inr (h1, cur)) \<Rightarrow>
                (case load h1 (Some cur) of Inl e \<Rightarrow> Some (Inl e)
                 | Inr c \<Rightarrow> (case next_at c 0 of Inl e \<Rightarrow> Some (Inl e)
                     | Inr nx \<Rightarrow>
                        if nx = None then Some (Inl AssertFailed)
                        else (case store_prev h1 (Some new_n) (Some cur) of Inl e \<Rightarrow> Some (Inl e)
                          | Inr h2 \<Rightarrow> (case load h2 (Some new_n) of Inl e \<Rightarrow> Some (Inl e)
                              | Inr n \<Rightarrow> (case next_at n 0 of Inl e \<Rightarrow> Some (Inl e)
                                  | Inr succ \<Rightarrow> (case store_prev h2 succ (Some new_n) of
                                        Inl e \<Rightarrow> Some (Inl e)
                                      | Inr h3 \<Rightarrow>
                                          Some (Inr (s\<lparr>heap := h3, brk := Suc new_n,
                                                       m_size := m_size s + 1\<rparr>, new_n))))))))))"

subsection \<open>\<open>remove\<close> and \<open>remove_all\<close>\<close>

text \<open>The \<open>while\<close> of \<open>remove\<close> at one level; it reads \<open>node->m_value\<close> at every test.\<close>

partial_function (option) remove_scan ::
  "'a::linorder heap \<Rightarrow> addr \<Rightarrow> addr \<Rightarrow> nat \<Rightarrow> addr \<Rightarrow> (error + addr) option" where
  "remove_scan h t node level cur =
     (case load h (Some cur) of Inl e \<Rightarrow> Some (Inl e)
      | Inr c \<Rightarrow> (case next_at c level of Inl e \<Rightarrow> Some (Inl e)
          | Inr nx \<Rightarrow>
              if nx = Some t then Some (Inr cur)
              else (case nx of None \<Rightarrow> Some (Inl Fault)
                | Some a \<Rightarrow> (case load h (Some a) of Inl e \<Rightarrow> Some (Inl e)
                    | Inr n \<Rightarrow> (case load h (Some node) of Inl e \<Rightarrow> Some (Inl e)
                        | Inr d \<Rightarrow> if m_less (m_value n) (m_value d)
                                   then remove_scan h t node level a
                                   else Some (Inr cur))))))"

declare remove_scan.simps [code]

text \<open>
  \<open>if (curr->m_next[level] == node) curr->m_next[level] = node->m_next[level]\<close>:
  the comparison is between pointers.
\<close>

definition remove_unlink :: "'a heap \<Rightarrow> addr \<Rightarrow> nat \<Rightarrow> addr \<Rightarrow> error + 'a heap" where
  "remove_unlink h node level cur =
     (case load h (Some cur) of Inl e \<Rightarrow> Inl e
      | Inr c \<Rightarrow> (case next_at c level of Inl e \<Rightarrow> Inl e
          | Inr nx \<Rightarrow>
              if nx = Some node then
                (case load h (Some node) of Inl e \<Rightarrow> Inl e
                 | Inr d \<Rightarrow> (case next_at d level of Inl e \<Rightarrow> Inl e
                     | Inr q \<Rightarrow> store_next h (Some cur) level q))
              else Inr h))"

fun remove_down ::
  "'a::linorder heap \<Rightarrow> addr \<Rightarrow> addr \<Rightarrow> nat \<Rightarrow> addr \<Rightarrow> (error + 'a heap) option" where
  "remove_down h t node 0 cur = Some (Inr h)"
| "remove_down h t node (Suc level) cur =
     (case load h (Some cur) of Inl e \<Rightarrow> Some (Inl e)
      | Inr c \<Rightarrow>
          if \<not> level \<le> m_level c then Some (Inl AssertFailed)
          else (case remove_scan h t node level cur of None \<Rightarrow> None
            | Some (Inl e) \<Rightarrow> Some (Inl e)
            | Some (Inr c1) \<Rightarrow> (case remove_unlink h node level c1 of Inl e \<Rightarrow> Some (Inl e)
                | Inr h1 \<Rightarrow> remove_down h1 t node level c1)))"

definition remove_sl :: "'a::linorder sl_impl \<Rightarrow> ptr \<Rightarrow> (error + 'a sl_impl) option" where
  "remove_sl s node =
     (case node of None \<Rightarrow> Some (Inl AssertFailed)
      | Some a \<Rightarrow> (case load (heap s) (Some a) of Inl e \<Rightarrow> Some (Inl e)
          | Inr d \<Rightarrow> (case next_at d 0 of Inl e \<Rightarrow> Some (Inl e)
              | Inr succ \<Rightarrow>
                  if succ = None then Some (Inl AssertFailed)
                  else if m_head s = a then Some (Inl AssertFailed)
                  else if m_tail s = a then Some (Inl AssertFailed)
                  else (case store_prev (heap s) succ (m_prev d) of Inl e \<Rightarrow> Some (Inl e)
                    | Inr h1 \<Rightarrow>
                       (case remove_down h1 (m_tail s) a (m_levels s + 1) (m_head s) of
                          None \<Rightarrow> None
                        | Some (Inl e) \<Rightarrow> Some (Inl e)
                        | Some (Inr h2) \<Rightarrow>
                            Some (Inr (s\<lparr>heap := h2(a := None), m_size := m_size s - 1\<rparr>)))))))"

text \<open>The first loop of \<open>remove_all\<close>: every node of the bottom chain is deleted.\<close>

partial_function (option) free_chain ::
  "'a heap \<Rightarrow> addr \<Rightarrow> ptr \<Rightarrow> (error + 'a heap) option" where
  "free_chain h t node =
     (if node = Some t then Some (Inr h)
      else (case node of None \<Rightarrow> Some (Inl Fault)
        | Some a \<Rightarrow> (case load h (Some a) of Inl e \<Rightarrow> Some (Inl e)
            | Inr n \<Rightarrow> (case next_at n 0 of Inl e \<Rightarrow> Some (Inl e)
                | Inr nx \<Rightarrow> free_chain (h(a := None)) t nx))))"

declare free_chain.simps [code]

text \<open>The second loop: \<open>m_head->m_next[level] = m_tail\<close> for the levels in the list.\<close>

fun reset_head :: "'a heap \<Rightarrow> addr \<Rightarrow> addr \<Rightarrow> nat list \<Rightarrow> error + 'a heap" where
  "reset_head h hp t [] = Inr h"
| "reset_head h hp t (level # ls) =
     (case store_next h (Some hp) level (Some t) of Inl e \<Rightarrow> Inl e
      | Inr h1 \<Rightarrow> reset_head h1 hp t ls)"

definition remove_all :: "'a sl_impl \<Rightarrow> (error + 'a sl_impl) option" where
  "remove_all s =
     (case front_sl s of Inl e \<Rightarrow> Some (Inl e)
      | Inr node \<Rightarrow> (case free_chain (heap s) (m_tail s) node of None \<Rightarrow> None
          | Some (Inl e) \<Rightarrow> Some (Inl e)
          | Some (Inr h1) \<Rightarrow>
              (case reset_head h1 (m_head s) (m_tail s) [0 ..< m_levels s + 1] of
                 Inl e \<Rightarrow> Some (Inl e)
               | Inr h2 \<Rightarrow> (case store_prev h2 (Some (m_tail s)) (Some (m_head s)) of
                     Inl e \<Rightarrow> Some (Inl e)
                   | Inr h3 \<Rightarrow> Some (Inr (s\<lparr>heap := h3, m_size := 0\<rparr>))))))"

subsection \<open>Traversal\<close>

text \<open>
  The iterators step with \<open>m_node = m_node->m_next[0]\<close> and \<open>m_node = m_node->m_prev\<close>;
  \<open>dump\<close> walks a level the same way with \<open>m_next[level]\<close>. A forward traversal of level
  \<open>level\<close> starts at a pointer and collects the nodes it visits until it meets the
  tail; a backward traversal starts at \<open>back()\<close> and follows \<open>m_prev\<close> until it meets the
  head.
\<close>

partial_function (option) walk_next ::
  "'a heap \<Rightarrow> addr \<Rightarrow> nat \<Rightarrow> addr list \<Rightarrow> ptr \<Rightarrow> (error + addr list) option" where
  "walk_next h t level acc p =
     (if p = Some t then Some (Inr (rev acc))
      else (case p of None \<Rightarrow> Some (Inl Fault)
        | Some a \<Rightarrow> (case load h (Some a) of Inl e \<Rightarrow> Some (Inl e)
            | Inr n \<Rightarrow> (case next_at n level of Inl e \<Rightarrow> Some (Inl e)
                | Inr nx \<Rightarrow> walk_next h t level (a # acc) nx))))"

declare walk_next.simps [code]

partial_function (option) walk_prev ::
  "'a heap \<Rightarrow> addr \<Rightarrow> addr list \<Rightarrow> ptr \<Rightarrow> (error + addr list) option" where
  "walk_prev h hp acc p =
     (if p = Some hp then Some (Inr (rev acc))
      else (case p of None \<Rightarrow> Some (Inl Fault)
        | Some a \<Rightarrow> (case load h (Some a) of Inl e \<Rightarrow> Some (Inl e)
            | Inr n \<Rightarrow> walk_prev h hp (a # acc) (m_prev n))))"

declare walk_prev.simps [code]

definition level_nodes :: "'a sl_impl \<Rightarrow> nat \<Rightarrow> (error + addr list) option" where
  "level_nodes s level =
     (case load (heap s) (Some (m_head s)) of Inl e \<Rightarrow> Some (Inl e)
      | Inr n \<Rightarrow> (case next_at n level of Inl e \<Rightarrow> Some (Inl e)
          | Inr p \<Rightarrow> walk_next (heap s) (m_tail s) level [] p))"

definition forward_nodes :: "'a sl_impl \<Rightarrow> (error + addr list) option" where
  "forward_nodes s = level_nodes s 0"

definition backward_nodes :: "'a sl_impl \<Rightarrow> (error + addr list) option" where
  "backward_nodes s =
     (case back_sl s of Inl e \<Rightarrow> Some (Inl e)
      | Inr p \<Rightarrow> walk_prev (heap s) (m_head s) [] p)"

subsection \<open>Sequences of calls\<close>

text \<open>
  A caller's program is a list of calls. \<open>Insert v rnd hint\<close> is \<open>insert(v, hint)\<close> with
  the random numbers it draws, \<open>Remove p\<close> is \<open>remove(p)\<close>, \<open>Remove_all\<close> is
  \<open>remove_all()\<close>. A call that does not return normally ends the run.
\<close>

datatype 'a call = Insert 'a "nat \<Rightarrow> nat" ptr | Remove ptr | Remove_all

fun step :: "'a::linorder sl_impl \<Rightarrow> 'a call \<Rightarrow> (error + 'a sl_impl) option" where
  "step s (Insert v rnd hint) =
     (case insert_sl s v rnd hint of None \<Rightarrow> None
      | Some (Inl e) \<Rightarrow> Some (Inl e)
      | Some (Inr (s1, a)) \<Rightarrow> Some (Inr s1))"
| "step s (Remove p) = remove_sl s p"
| "step s Remove_all = remove_all s"

fun steps :: "'a::linorder sl_impl \<Rightarrow> 'a call list \<Rightarrow> (error + 'a sl_impl) option" where
  "steps s [] = Some (Inr s)"
| "steps s (c # cs) =
     (case step s c of None \<Rightarrow> None
      | Some (Inl e) \<Rightarrow> Some (Inl e)
      | Some (Inr s1) \<Rightarrow> steps s1 cs)"

text \<open>A program that starts with the constructor.\<close>

definition run :: "'a::linorder \<Rightarrow> 'a \<Rightarrow> 'a call list \<Rightarrow> (error + 'a sl_impl) option" where
  "run vmin vmax cs = (case sl_init vmin vmax of Inl e \<Rightarrow> Some (Inl e) | Inr s \<Rightarrow> steps s cs)"

text \<open>The program that makes one \<open>insert\<close> without a hint per value.\<close>

definition inserts :: "('a \<times> (nat \<Rightarrow> nat)) list \<Rightarrow> 'a call list" where
  "inserts vs = map (\<lambda>(v, rnd). Insert v rnd None) vs"

section \<open>What a heap holds\<close>

text \<open>
  The fields of the node at an address, read without failure: \<open>nxt h L a\<close> is
  \<open>a->m_next[L]\<close> (null when the node or the index does not exist), \<open>prv\<close> is
  \<open>m_prev\<close>, \<open>val\<close> the value, \<open>lev\<close> the level, \<open>len\<close> the number of forward pointers.
\<close>

definition nxt :: "'a heap \<Rightarrow> nat \<Rightarrow> addr \<Rightarrow> ptr" where
  "nxt h L a = (case h a of None \<Rightarrow> None
                | Some n \<Rightarrow> if L < length (m_next n) then m_next n ! L else None)"

definition prv :: "'a heap \<Rightarrow> addr \<Rightarrow> ptr" where
  "prv h a = (case h a of None \<Rightarrow> None | Some n \<Rightarrow> m_prev n)"

definition val :: "'a heap \<Rightarrow> addr \<Rightarrow> 'a option" where
  "val h a = map_option m_value (h a)"

definition lev :: "'a heap \<Rightarrow> addr \<Rightarrow> nat" where
  "lev h a = (case h a of None \<Rightarrow> 0 | Some n \<Rightarrow> m_level n)"

definition len :: "'a heap \<Rightarrow> addr \<Rightarrow> nat" where
  "len h a = (case h a of None \<Rightarrow> 0 | Some n \<Rightarrow> length (m_next n))"

text \<open>The heap after a write to one field of one node.\<close>

definition upd_next :: "'a heap \<Rightarrow> addr \<Rightarrow> nat \<Rightarrow> ptr \<Rightarrow> 'a heap" where
  "upd_next h a i q = (case h a of None \<Rightarrow> h
                       | Some n \<Rightarrow> h(a \<mapsto> n\<lparr>m_next := (m_next n)[i := q]\<rparr>))"

definition upd_prev :: "'a heap \<Rightarrow> addr \<Rightarrow> ptr \<Rightarrow> 'a heap" where
  "upd_prev h a q = (case h a of None \<Rightarrow> h | Some n \<Rightarrow> h(a \<mapsto> n\<lparr>m_prev := q\<rparr>))"

text \<open>Two heaps with the same nodes: the same addresses, values, levels and array sizes.\<close>

definition same_nodes :: "'a heap \<Rightarrow> 'a heap \<Rightarrow> bool" where
  "same_nodes h h' = (\<forall>a. (h' a = None \<longleftrightarrow> h a = None) \<and> val h' a = val h a \<and>
       lev h' a = lev h a \<and> len h' a = len h a)"

text \<open>The comparisons the loops make, on addresses.\<close>

definition below :: "'a::linorder heap \<Rightarrow> 'a \<Rightarrow> addr \<Rightarrow> bool" where
  "below h v a = (case h a of None \<Rightarrow> False | Some n \<Rightarrow> m_value n < v)"

definition upto :: "'a::linorder heap \<Rightarrow> 'a \<Rightarrow> addr \<Rightarrow> bool" where
  "upto h v a = (case h a of None \<Rightarrow> False | Some n \<Rightarrow> m_value n \<le> v)"

definition le_val :: "'a::linorder heap \<Rightarrow> addr \<Rightarrow> addr \<Rightarrow> bool" where
  "le_val h a b = (case h a of None \<Rightarrow> False
                   | Some n \<Rightarrow> (case h b of None \<Rightarrow> False | Some m \<Rightarrow> m_value n \<le> m_value m))"

text \<open>
  Handles are handed out in increasing order, so of two nodes the one with the greater
  address was inserted later. \<open>newer_first h a b\<close>: if \<open>a\<close> and \<open>b\<close> hold the same value,
  \<open>a\<close> is the later one.
\<close>

definition newer_first :: "'a heap \<Rightarrow> addr \<Rightarrow> addr \<Rightarrow> bool" where
  "newer_first h a b \<longleftrightarrow> (val h a = val h b \<longrightarrow> b < a)"

subsection \<open>Chains\<close>

text \<open>
  \<open>path h L a xs b\<close>: following \<open>m_next[L]\<close> from \<open>a\<close> visits exactly the nodes \<open>xs\<close> and
  then reaches \<open>b\<close>. \<open>back_path h a xs b\<close>: the \<open>m_prev\<close> pointers of \<open>xs\<close> and \<open>b\<close> lead
  back along the same nodes to \<open>a\<close>.
\<close>

fun path :: "'a heap \<Rightarrow> nat \<Rightarrow> addr \<Rightarrow> addr list \<Rightarrow> addr \<Rightarrow> bool" where
  "path h L a [] b = (nxt h L a = Some b)"
| "path h L a (x # xs) b = (nxt h L a = Some x \<and> path h L x xs b)"

fun back_path :: "'a heap \<Rightarrow> addr \<Rightarrow> addr list \<Rightarrow> addr \<Rightarrow> bool" where
  "back_path h a [] b = (prv h b = Some a)"
| "back_path h a (x # xs) b = (prv h x = Some a \<and> back_path h x xs b)"

text \<open>
  The chain of level \<open>L\<close> between the sentinels: a path from head to tail through
  distinct live nodes, none of them a sentinel, each of level at least \<open>L\<close>.
\<close>

definition lvl :: "'a heap \<Rightarrow> addr \<Rightarrow> addr \<Rightarrow> nat \<Rightarrow> addr list \<Rightarrow> bool" where
  "lvl h hp t L xs \<longleftrightarrow>
     path h L hp xs t \<and> distinct xs \<and> hp \<notin> set xs \<and> t \<notin> set xs \<and>
     (\<forall>a\<in>set xs. h a \<noteq> None \<and> L \<le> lev h a)"

text \<open>
  Where a scan that starts at \<open>cur\<close> on the chain \<open>ys\<close> stops, when it steps over the
  nodes that satisfy \<open>P\<close>; and the chain with a node \<open>n\<close> linked in after \<open>p\<close>
  (\<open>a\<close> is the node before the chain).
\<close>

definition scan_pos :: "(addr \<Rightarrow> bool) \<Rightarrow> addr list \<Rightarrow> addr \<Rightarrow> addr" where
  "scan_pos P ys cur = last (cur # takeWhile P (tl (dropWhile (\<lambda>a. a \<noteq> cur) ys)))"

fun splice :: "addr \<Rightarrow> addr \<Rightarrow> addr \<Rightarrow> addr list \<Rightarrow> addr list" where
  "splice p n a [] = (if p = a then [n] else [])"
| "splice p n a (x # xs) = (if p = a then n # x # xs else x # splice p n x xs)"

text \<open>
  The position reached at level \<open>K\<close> by a descent that starts at \<open>cur\<close> on level
  \<open>level\<close>; \<open>C L\<close> is the chain of level \<open>L\<close>.
\<close>

fun pos :: "(addr \<Rightarrow> bool) \<Rightarrow> addr \<Rightarrow> (nat \<Rightarrow> addr list) \<Rightarrow> nat \<Rightarrow> addr \<Rightarrow> nat \<Rightarrow> addr" where
  "pos P hp C 0 cur K = scan_pos P (hp # C 0) cur"
| "pos P hp C (Suc l) cur K =
     (if K \<le> l then pos P hp C l (scan_pos P (hp # C (Suc l)) cur) K
      else scan_pos P (hp # C (Suc l)) cur)"

text \<open>
  A chain with the node \<open>n\<close> put in front of the first node that does not satisfy
  \<open>P\<close>.
\<close>

definition ins_chain :: "(addr \<Rightarrow> bool) \<Rightarrow> addr \<Rightarrow> addr list \<Rightarrow> addr list" where
  "ins_chain P n xs = takeWhile P xs @ n # dropWhile P xs"

subsection \<open>The invariant\<close>

text \<open>
  \<open>sl_rep s C\<close>: the engine \<open>s\<close> is well formed and \<open>C L\<close> is its chain of level \<open>L\<close>.
  The sentinels are two live nodes, the head with \<open>max_levels + 1\<close> forward pointers.
  The live nodes are the sentinels and the nodes of the bottom chain, and no address from
  \<open>brk\<close> on is in use. Every level up to \<open>max_levels\<close> is a chain sorted by value that
  holds exactly the nodes of that level or more. The back pointers mirror the bottom
  chain, and \<open>m_size\<close> counts it.
\<close>

definition sl_rep :: "'a::linorder sl_impl \<Rightarrow> (nat \<Rightarrow> addr list) \<Rightarrow> bool" where
  "sl_rep s C \<longleftrightarrow>
     m_levels s = max_levels \<and> m_head s \<noteq> m_tail s \<and>
     lev (heap s) (m_head s) = max_levels \<and> len (heap s) (m_head s) = max_levels + 1 \<and>
     heap s (m_tail s) \<noteq> None \<and>
     (\<forall>a. heap s a \<noteq> None \<longleftrightarrow> a = m_head s \<or> a = m_tail s \<or> a \<in> set (C 0)) \<and>
     (\<forall>a. brk s \<le> a \<longrightarrow> heap s a = None) \<and>
     (\<forall>L\<le>max_levels. lvl (heap s) (m_head s) (m_tail s) L (C L) \<and>
        sorted_wrt (le_val (heap s)) (C L) \<and>
        set (C L) = {a \<in> set (C 0). L \<le> lev (heap s) a}) \<and>
     (\<forall>a\<in>set (C 0). len (heap s) a = lev (heap s) a + 1 \<and> lev (heap s) a \<le> max_levels) \<and>
     back_path (heap s) (m_head s) (C 0) (m_tail s) \<and>
     m_size s = of_nat (length (C 0))"

definition sl_inv :: "'a::linorder sl_impl \<Rightarrow> bool" where
  "sl_inv s \<longleftrightarrow> (\<exists>C. sl_rep s C)"

text \<open>The stored nodes: every live node that is not a sentinel.\<close>

definition stored :: "'a sl_impl \<Rightarrow> addr \<Rightarrow> bool" where
  "stored s a \<longleftrightarrow> heap s a \<noteq> None \<and> a \<noteq> m_head s \<and> a \<noteq> m_tail s"

section \<open>Example programs\<close>

text \<open>
  The examples store \<open>int\<close> values; the sentinels hold the least and the greatest
  32-bit \<open>int\<close>.
\<close>

definition int_min :: int where
  "int_min = - 2147483648"

definition int_max :: int where
  "int_max = 2147483647"

text \<open>
  Two inserts of the value 5, which return the handles 2 and 3 (the sentinels are at 0
  and 1), then the removal of the first handle. Every draw of \<open>rand()\<close> is odd, so both
  nodes have level 1.
\<close>

definition dup_program :: "int call list" where
  "dup_program = [Insert 5 (\<lambda>i. 1) None, Insert 5 (\<lambda>i. 1) None, Remove (Some 2)]"

text \<open>
  An insert of 5 at level 1, then an insert of 9 that draws the level 5 and takes the
  first node as its hint.
\<close>

definition shallow_hint_program :: "int call list" where
  "shallow_hint_program = [Insert 5 (\<lambda>i. 1) None, Insert 9 (\<lambda>i. 0) (Some 2)]"

section \<open>Lemmas about the heap\<close>

subsection \<open>Reads and writes\<close>

lemma load_Some: "load h (Some a) = (case h a of None \<Rightarrow> Inl Fault | Some n \<Rightarrow> Inr n)"
  by (simp add: load_def)

lemma next_at_nxt:
  "h a = Some n \<Longrightarrow> next_at n i = (if i < len h a then Inr (nxt h i a) else Inl Fault)"
  by (simp add: next_at_def len_def nxt_def)

lemma store_next_upd:
  "store_next h (Some a) i q = (if i < len h a then Inr (upd_next h a i q) else Inl Fault)"
  by (simp add: store_next_def len_def upd_next_def split: option.splits)

lemma store_prev_upd:
  "store_prev h (Some a) q = (if h a = None then Inl Fault else Inr (upd_prev h a q))"
  by (auto simp: store_prev_def upd_prev_def split: option.splits)

lemma store_prev_None: "store_prev h None q = Inl Fault"
  by (simp add: store_prev_def)

lemma nxt_upd_next:
  "nxt (upd_next h a i q) K b = (if b = a \<and> K = i \<and> i < len h a then q else nxt h K b)"
  by (auto simp: nxt_def upd_next_def len_def nth_list_update split: option.splits)

lemma prv_upd_next: "prv (upd_next h a i q) b = prv h b"
  by (auto simp: prv_def upd_next_def split: option.splits)

lemma val_upd_next: "val (upd_next h a i q) b = val h b"
  by (auto simp: val_def upd_next_def split: option.splits)

lemma lev_upd_next: "lev (upd_next h a i q) b = lev h b"
  by (auto simp: lev_def upd_next_def split: option.splits)

lemma len_upd_next: "len (upd_next h a i q) b = len h b"
  by (auto simp: len_def upd_next_def split: option.splits)

lemma live_upd_next: "(upd_next h a i q b = None) = (h b = None)"
  by (auto simp: upd_next_def split: option.splits)

lemma nxt_upd_prev: "nxt (upd_prev h a q) K b = nxt h K b"
  by (auto simp: nxt_def upd_prev_def split: option.splits)

lemma prv_upd_prev: "prv (upd_prev h a q) b = (if b = a \<and> h a \<noteq> None then q else prv h b)"
  by (auto simp: prv_def upd_prev_def split: option.splits)

lemma val_upd_prev: "val (upd_prev h a q) b = val h b"
  by (auto simp: val_def upd_prev_def split: option.splits)

lemma lev_upd_prev: "lev (upd_prev h a q) b = lev h b"
  by (auto simp: lev_def upd_prev_def split: option.splits)

lemma len_upd_prev: "len (upd_prev h a q) b = len h b"
  by (auto simp: len_def upd_prev_def split: option.splits)

lemma live_upd_prev: "(upd_prev h a q b = None) = (h b = None)"
  by (auto simp: upd_prev_def split: option.splits)

lemmas upd_simps = nxt_upd_next prv_upd_next val_upd_next lev_upd_next len_upd_next live_upd_next
  nxt_upd_prev prv_upd_prev val_upd_prev lev_upd_prev len_upd_prev live_upd_prev

lemma nxt_alloc:
  "nxt (h(a \<mapsto> new_node v l)) K b = (if b = a then None else nxt h K b)"
  by (auto simp: nxt_def new_node_def nth_Cons')

lemma prv_alloc: "prv (h(a \<mapsto> new_node v l)) b = (if b = a then None else prv h b)"
  by (auto simp: prv_def new_node_def)

lemma val_alloc: "val (h(a \<mapsto> new_node v l)) b = (if b = a then Some v else val h b)"
  by (auto simp: val_def new_node_def)

lemma lev_alloc: "lev (h(a \<mapsto> new_node v l)) b = (if b = a then l else lev h b)"
  by (auto simp: lev_def new_node_def)

lemma len_alloc: "len (h(a \<mapsto> new_node v l)) b = (if b = a then l + 1 else len h b)"
  by (auto simp: len_def new_node_def)

lemmas alloc_simps = nxt_alloc prv_alloc val_alloc lev_alloc len_alloc

lemma nxt_free: "nxt (h(a := None)) K b = (if b = a then None else nxt h K b)"
  by (auto simp: nxt_def)

lemma prv_free: "prv (h(a := None)) b = (if b = a then None else prv h b)"
  by (auto simp: prv_def)

lemma val_free: "val (h(a := None)) b = (if b = a then None else val h b)"
  by (auto simp: val_def)

lemma lev_free: "lev (h(a := None)) b = (if b = a then 0 else lev h b)"
  by (auto simp: lev_def)

lemma len_free: "len (h(a := None)) b = (if b = a then 0 else len h b)"
  by (auto simp: len_def)

lemmas free_simps = nxt_free prv_free val_free lev_free len_free

lemma nxt_Some_live: "nxt h L a = Some b \<Longrightarrow> h a \<noteq> None \<and> L < len h a"
  by (auto simp: nxt_def len_def split: option.splits if_splits)

lemma below_val: "below h v a = (case val h a of None \<Rightarrow> False | Some x \<Rightarrow> x < v)"
  by (simp add: below_def val_def split: option.splits)

lemma upto_val: "upto h v a = (case val h a of None \<Rightarrow> False | Some x \<Rightarrow> x \<le> v)"
  by (simp add: upto_def val_def split: option.splits)

lemma le_val_val:
  "le_val h a b = (case val h a of None \<Rightarrow> False
     | Some x \<Rightarrow> (case val h b of None \<Rightarrow> False | Some y \<Rightarrow> x \<le> y))"
  by (simp add: le_val_def val_def split: option.splits)

lemma same_nodes_refl: "same_nodes h h"
  by (simp add: same_nodes_def)

lemma same_nodes_trans: "same_nodes h h1 \<Longrightarrow> same_nodes h1 h2 \<Longrightarrow> same_nodes h h2"
  by (simp add: same_nodes_def)

lemma same_nodes_upd_next: "same_nodes h (upd_next h a i q)"
  by (simp add: same_nodes_def upd_simps)

lemma same_nodes_upd_prev: "same_nodes h (upd_prev h a q)"
  by (simp add: same_nodes_def upd_simps)

lemma same_nodes_below: "same_nodes h h' \<Longrightarrow> below h' v = below h v"
  by (rule ext) (simp add: below_val same_nodes_def)

lemma same_nodes_le_val: "same_nodes h h' \<Longrightarrow> le_val h' = le_val h"
  by (intro ext) (auto simp: le_val_val same_nodes_def split: option.splits)

lemma heap_eqI:
  assumes "\<And>a. (h a = None) = (h' a = None)"
    and "\<And>a. val h a = val h' a" "\<And>a. lev h a = lev h' a" "\<And>a. prv h a = prv h' a"
    and "\<And>a. len h a = len h' a" "\<And>a K. nxt h K a = nxt h' K a"
  shows "h = h'"
proof (rule ext)
  fix a
  show "h a = h' a"
  proof (cases "h a")
    case None
    with assms(1)[of a] show ?thesis by simp
  next
    case (Some n)
    with assms(1)[of a] obtain n' where n': "h' a = Some n'" by (cases "h' a") auto
    have "m_value n = m_value n'" using assms(2)[of a] Some n' by (simp add: val_def)
    moreover have "m_level n = m_level n'" using assms(3)[of a] Some n' by (simp add: lev_def)
    moreover have "m_prev n = m_prev n'" using assms(4)[of a] Some n' by (simp add: prv_def)
    moreover have "m_next n = m_next n'"
    proof (rule nth_equalityI)
      show l: "length (m_next n) = length (m_next n')"
        using assms(5)[of a] Some n' by (simp add: len_def)
      fix i assume "i < length (m_next n)"
      with l assms(6)[of i a] Some n' show "m_next n ! i = m_next n' ! i"
        by (simp add: nxt_def)
    qed
    ultimately have "n = n'" by simp
    with Some n' show ?thesis by simp
  qed
qed

section \<open>Removing a node that is not the first of its value\<close>

text \<open>
  C3. \<open>remove\<close> descends with the strict comparison, so at every level it stops in front
  of the first node whose value is not less than the removed node's value, and unlinks
  only when that node is the removed one. After \<open>insert(5)\<close>, \<open>insert(5)\<close> the second
  node (3) stands in front of the first (2). Removing the handle 2 decrements the size
  to 1 and frees the node, but both forward pointers of node 3 still lead to it: the
  node is not unlinked from any level.
\<close>

theorem remove_second_duplicate_stays_linked:
  "(case run int_min int_max dup_program of
      Some (Inr s) \<Rightarrow> size_sl s = 1 \<and> heap s 2 = None \<and>
        nxt (heap s) 0 (m_head s) = Some 3 \<and> nxt (heap s) 0 3 = Some 2 \<and> nxt (heap s) 1 3 = Some 2
    | _ \<Rightarrow> False)"
  by code_simp

text \<open>
  C1. In the state reached by the same three calls the chains of the levels 0 and 1 do
  not lead from the head to the tail: following them runs into the freed node. In the
  state reached by the hinted insert, node 3 is stored with level 5, and the chain of
  level 2 is empty: the node is not on it.
\<close>

theorem chain_broken_after_remove:
  "(case run int_min int_max dup_program of
      Some (Inr s) \<Rightarrow> level_nodes s 0 = Some (Inl Fault) \<and> level_nodes s 1 = Some (Inl Fault)
    | _ \<Rightarrow> False) \<and>
   (case run int_min int_max shallow_hint_program of
      Some (Inr s) \<Rightarrow> stored s 3 \<and> lev (heap s) 3 = 5 \<and> level_nodes s 2 = Some (Inr [])
    | _ \<Rightarrow> False)"
  by code_simp

text \<open>
  C8. In the same state the backward traversal from \<open>back()\<close> visits node 3 and arrives
  at the head, while the forward traversal from \<open>front()\<close> visits node 3 and then reads
  freed memory.
\<close>

theorem backward_differs_from_forward:
  "(case run int_min int_max dup_program of
      Some (Inr s) \<Rightarrow> backward_nodes s = Some (Inr [3]) \<and> forward_nodes s = Some (Inl Fault)
    | _ \<Rightarrow> False)"
  by code_simp

subsection \<open>Paths\<close>

lemma path_append: "path h L a (xs @ y # ys) b = (path h L a xs y \<and> path h L y ys b)"
  by (induction xs arbitrary: a) auto

lemma path_frame:
  "(\<And>x. x \<in> set (a # xs) \<Longrightarrow> nxt h' L x = nxt h L x) \<Longrightarrow> path h' L a xs b = path h L a xs b"
  by (induction xs arbitrary: a) auto

lemma path_next_in:
  "path h L a xs b \<Longrightarrow> x \<in> set (a # xs) \<Longrightarrow> \<exists>y. nxt h L x = Some y \<and> y \<in> set (xs @ [b])"
  by (induction xs arbitrary: a) auto

lemma path_suffix:
  "path h L a xs b \<Longrightarrow> a # xs = pre @ c # zs \<Longrightarrow> path h L c zs b"
  by (cases pre) (auto simp: path_append)

lemma back_path_append:
  "back_path h a (xs @ y # ys) b = (back_path h a xs y \<and> back_path h y ys b)"
  by (induction xs arbitrary: a) auto

lemma back_path_snoc: "back_path h a (xs @ [y]) b = (back_path h a xs y \<and> prv h b = Some y)"
  by (simp add: back_path_append)

lemma back_path_frame:
  "(\<And>x. x \<in> set (xs @ [b]) \<Longrightarrow> prv h' x = prv h x) \<Longrightarrow> back_path h' a xs b = back_path h a xs b"
  by (induction xs arbitrary: a) auto

lemma lvl_frame:
  assumes "lvl h hp t L xs"
    and "\<And>x. x \<in> set (hp # xs) \<Longrightarrow> nxt h' L x = nxt h L x"
    and "\<And>x. x \<in> set xs \<Longrightarrow> h' x \<noteq> None \<and> lev h' x = lev h x"
  shows "lvl h' hp t L xs"
  using assms path_frame[of hp xs h' L h t] by (auto simp: lvl_def)

lemma scan_pos_split:
  "cur \<notin> set pre \<Longrightarrow> scan_pos P (pre @ cur # zs) cur = last (cur # takeWhile P zs)"
proof -
  assume "cur \<notin> set pre"
  then have "dropWhile (\<lambda>a. a \<noteq> cur) (pre @ cur # zs) = cur # zs"
    by (induction pre) auto
  then show ?thesis by (simp add: scan_pos_def)
qed

lemma scan_pos_in: "cur \<in> set ys \<Longrightarrow> scan_pos P ys cur \<in> set ys"
proof -
  assume "cur \<in> set ys"
  then obtain pre zs where ys: "ys = pre @ cur # zs" "cur \<notin> set pre"
    by (auto dest: split_list_first)
  have "last (cur # takeWhile P zs) \<in> set (cur # takeWhile P zs)"
    by (rule last_in_set) simp
  then have "last (cur # takeWhile P zs) \<in> set (cur # zs)"
    using set_takeWhileD[of _ P zs] by auto
  with ys show ?thesis by (auto simp add: scan_pos_split simp del: last.simps)
qed

subsection \<open>The scans\<close>

lemma insert_scan_path:
  assumes "path h L cur zs t" "t \<notin> set zs"
    and "\<And>a. a \<in> set zs \<Longrightarrow> h a \<noteq> None \<and> L \<le> lev h a"
  shows "insert_scan h t v L cur = Some (Inr (last (cur # takeWhile (below h v) zs)))"
  using assms
proof (induction zs arbitrary: cur)
  case Nil
  then obtain c where "h cur = Some c" "L < length (m_next c)" "m_next c ! L = Some t"
    by (auto simp: nxt_def split: option.splits if_splits)
  then show ?case
    by (subst insert_scan.simps) (simp add: load_def next_at_def)
next
  case (Cons z zs)
  from Cons.prems(1) obtain c where c: "h cur = Some c" "L < length (m_next c)" "m_next c ! L = Some z"
    by (auto simp: nxt_def split: option.splits if_splits)
  from Cons.prems(3)[of z] obtain n where n: "h z = Some n" "L \<le> m_level n"
    by (auto simp: lev_def split: option.splits)
  have zt: "z \<noteq> t" using Cons.prems(2) by auto
  show ?case
  proof (cases "below h v z")
    case True
    have "insert_scan h t v L z = Some (Inr (last (z # takeWhile (below h v) zs)))"
      using Cons.prems by (intro Cons.IH) auto
    with True c n zt show ?thesis
      by (subst insert_scan.simps) (simp add: load_def next_at_def below_def m_less_def)
  next
    case False
    with c n zt show ?thesis
      by (subst insert_scan.simps) (simp add: load_def next_at_def below_def m_less_def)
  qed
qed

lemma lvl_suffix:
  assumes "lvl h hp t L xs" "cur \<in> set (hp # xs)"
  obtains pre zs where "hp # xs = pre @ cur # zs" "cur \<notin> set pre" "path h L cur zs t"
    "set zs \<subseteq> set xs"
proof -
  from split_list_first[OF assms(2)] obtain pre zs
    where s: "hp # xs = pre @ cur # zs" "cur \<notin> set pre"
    by blast
  from assms(1) have "path h L hp xs t" by (simp add: lvl_def)
  then have "path h L cur zs t" using s(1) by (rule path_suffix)
  moreover have "set zs \<subseteq> set xs" using s(1) by (cases pre) auto
  ultimately show thesis using s that by blast
qed

lemma insert_scan_lvl:
  assumes "lvl h hp t L xs" "cur \<in> set (hp # xs)"
  shows "insert_scan h t v L cur = Some (Inr (scan_pos (below h v) (hp # xs) cur))"
proof -
  from assms obtain pre zs where s: "hp # xs = pre @ cur # zs" "cur \<notin> set pre"
    "path h L cur zs t" "set zs \<subseteq> set xs"
    by (rule lvl_suffix)
  have "insert_scan h t v L cur = Some (Inr (last (cur # takeWhile (below h v) zs)))"
    using s(3,4) assms(1) by (intro insert_scan_path) (auto simp: lvl_def)
  with s(1,2) show ?thesis by (simp add: scan_pos_split del: last.simps)
qed

lemma remove_scan_path:
  assumes "path h L cur zs t" "t \<notin> set zs"
    and "\<And>a. a \<in> set zs \<Longrightarrow> h a \<noteq> None"
    and "h node = Some d"
  shows "remove_scan h t node L cur = Some (Inr (last (cur # takeWhile (below h (m_value d)) zs)))"
  using assms(1-3)
proof (induction zs arbitrary: cur)
  case Nil
  then obtain c where "h cur = Some c" "L < length (m_next c)" "m_next c ! L = Some t"
    by (auto simp: nxt_def split: option.splits if_splits)
  then show ?case
    by (subst remove_scan.simps) (simp add: load_def next_at_def)
next
  case (Cons z zs)
  from Cons.prems(1) obtain c where c: "h cur = Some c" "L < length (m_next c)" "m_next c ! L = Some z"
    by (auto simp: nxt_def split: option.splits if_splits)
  from Cons.prems(3)[of z] obtain n where n: "h z = Some n"
    by auto
  have zt: "z \<noteq> t" using Cons.prems(2) by auto
  show ?case
  proof (cases "below h (m_value d) z")
    case True
    have "remove_scan h t node L z = Some (Inr (last (z # takeWhile (below h (m_value d)) zs)))"
      using Cons.prems by (intro Cons.IH) auto
    with True c n zt assms(4) show ?thesis
      by (subst remove_scan.simps) (simp add: load_def next_at_def below_def m_less_def)
  next
    case False
    with c n zt assms(4) show ?thesis
      by (subst remove_scan.simps) (simp add: load_def next_at_def below_def m_less_def)
  qed
qed

lemma remove_scan_lvl:
  assumes "lvl h hp t L xs" "cur \<in> set (hp # xs)" "h node = Some d"
  shows "remove_scan h t node L cur = Some (Inr (scan_pos (below h (m_value d)) (hp # xs) cur))"
proof -
  from assms(1,2) obtain pre zs where s: "hp # xs = pre @ cur # zs" "cur \<notin> set pre"
    "path h L cur zs t" "set zs \<subseteq> set xs"
    by (rule lvl_suffix)
  have "remove_scan h t node L cur = Some (Inr (last (cur # takeWhile (below h (m_value d)) zs)))"
    using s(3,4) assms(1,3) by (intro remove_scan_path) (auto simp: lvl_def)
  with s(1,2) show ?thesis by (simp add: scan_pos_split del: last.simps)
qed

subsection \<open>The descent of \<open>insert\<close>\<close>

lemma insert_link_eq:
  assumes "nxt h L cur = Some x" "L \<le> nl \<Longrightarrow> L < len h new_n"
  shows "insert_link h new_n nl L cur =
     Inr (if L \<le> nl then upd_next (upd_next h new_n L (Some x)) cur L (Some new_n) else h)"
proof -
  from assms(1) obtain c where c: "h cur = Some c" and l: "L < len h cur"
    using nxt_Some_live[OF assms(1)] by auto
  show ?thesis
    using assms c l
    by (simp add: insert_link_def load_Some next_at_nxt[where h=h and a=cur, OF c] store_next_upd upd_simps)
qed

lemma insert_down_effect:
  assumes "\<And>K. K \<le> level \<Longrightarrow> lvl h hp t K (C K)"
    and "\<And>K. K < level \<Longrightarrow> set (C (Suc K)) \<subseteq> set (C K)"
    and "cur \<in> set (hp # C level)"
    and "\<And>K. K \<le> level \<Longrightarrow> new_n \<notin> set (hp # C K)"
    and "nl < len h new_n"
  shows "\<exists>h'. insert_down h t v new_n nl level cur =
            Some (Inr (h', pos (below h v) hp C level cur 0)) \<and>
          same_nodes h h' \<and> prv h' = prv h \<and>
          (\<forall>K a. nxt h' K a =
             (if K \<le> level \<and> K \<le> nl \<and> a = pos (below h v) hp C level cur K then Some new_n
              else if K \<le> level \<and> K \<le> nl \<and> a = new_n
                   then nxt h K (pos (below h v) hp C level cur K)
              else nxt h K a))"
  using assms
proof (induction level arbitrary: h cur)
  case 0
  define p where "p = scan_pos (below h v) (hp # C 0) cur"
  have l0: "lvl h hp t 0 (C 0)" using "0.prems"(1) by simp
  have scan: "insert_scan h t v 0 cur = Some (Inr p)"
    unfolding p_def using l0 "0.prems"(3) by (rule insert_scan_lvl)
  have pin: "p \<in> set (hp # C 0)" unfolding p_def using "0.prems"(3) by (rule scan_pos_in)
  from l0 have "path h 0 hp (C 0) t" by (simp add: lvl_def)
  from path_next_in[OF this pin] obtain x where x: "nxt h 0 p = Some x" by blast
  have pn: "p \<noteq> new_n" using pin "0.prems"(4)[of 0] by auto
  have link: "insert_link h new_n nl 0 p =
      Inr (upd_next (upd_next h new_n 0 (Some x)) p 0 (Some new_n))"
    using insert_link_eq[OF x, of nl new_n] "0.prems"(5) by simp
  let ?h' = "upd_next (upd_next h new_n 0 (Some x)) p 0 (Some new_n)"
  have "insert_down h t v new_n nl 0 cur = Some (Inr (?h', p))"
    by (simp add: scan link)
  moreover have "same_nodes h ?h'"
    by (simp add: same_nodes_def upd_simps)
  moreover have "prv ?h' = prv h"
    by (rule ext) (simp add: upd_simps)
  moreover have "\<forall>K a. nxt ?h' K a =
      (if K \<le> 0 \<and> K \<le> nl \<and> a = p then Some new_n
       else if K \<le> 0 \<and> K \<le> nl \<and> a = new_n then nxt h K p else nxt h K a)"
    using x pn "0.prems"(5) nxt_Some_live[OF x] by (auto simp: upd_simps)
  ultimately show ?case by (simp add: p_def)
next
  case (Suc l)
  define p where "p = scan_pos (below h v) (hp # C (Suc l)) cur"
  have l0: "lvl h hp t (Suc l) (C (Suc l))" using Suc.prems(1) by simp
  have scan: "insert_scan h t v (Suc l) cur = Some (Inr p)"
    unfolding p_def using l0 Suc.prems(3) by (rule insert_scan_lvl)
  have pin: "p \<in> set (hp # C (Suc l))" unfolding p_def using Suc.prems(3) by (rule scan_pos_in)
  from l0 have "path h (Suc l) hp (C (Suc l)) t" by (simp add: lvl_def)
  from path_next_in[OF this pin] obtain x where x: "nxt h (Suc l) p = Some x" by blast
  have pn: "p \<noteq> new_n" using pin Suc.prems(4)[of "Suc l"] by auto
  define h1 where "h1 = (if Suc l \<le> nl
      then upd_next (upd_next h new_n (Suc l) (Some x)) p (Suc l) (Some new_n) else h)"
  have link: "insert_link h new_n nl (Suc l) p = Inr h1"
    unfolding h1_def using insert_link_eq[OF x, of nl new_n] Suc.prems(5) by simp
  have same1: "same_nodes h h1"
    by (simp add: h1_def same_nodes_def upd_simps)
  have prv1: "prv h1 = prv h"
    by (rule ext) (simp add: h1_def upd_simps)
  have nxt1: "\<And>K a. nxt h1 K a =
      (if K = Suc l \<and> Suc l \<le> nl \<and> a = p then Some new_n
       else if K = Suc l \<and> Suc l \<le> nl \<and> a = new_n then Some x else nxt h K a)"
    using pn Suc.prems(5) nxt_Some_live[OF x] by (auto simp: h1_def upd_simps)
  have below1: "below h1 v = below h v" using same1 by (rule same_nodes_below)
  have lvl1: "\<And>K. K \<le> l \<Longrightarrow> lvl h1 hp t K (C K)"
  proof -
    fix K assume K: "K \<le> l"
    show "lvl h1 hp t K (C K)"
    proof (rule lvl_frame)
      show "lvl h hp t K (C K)" using Suc.prems(1) K by simp
      show "\<And>x. x \<in> set (hp # C K) \<Longrightarrow> nxt h1 K x = nxt h K x"
        using K by (simp add: nxt1)
      show "\<And>x. x \<in> set (C K) \<Longrightarrow> h1 x \<noteq> None \<and> lev h1 x = lev h x"
        using same1 Suc.prems(1)[of K] K by (auto simp: same_nodes_def lvl_def)
    qed
  qed
  have pin': "p \<in> set (hp # C l)" using pin Suc.prems(2)[of l] by auto
  have len1: "nl < len h1 new_n" using same1 Suc.prems(5) by (simp add: same_nodes_def)
  from Suc.IH[of h1 p, OF lvl1 _ pin' _ len1] Suc.prems(2,4)
  obtain h' where h': "insert_down h1 t v new_n nl l p =
        Some (Inr (h', pos (below h v) hp C l p 0))"
      "same_nodes h1 h'" "prv h' = prv h1"
      "\<And>K a. nxt h' K a =
         (if K \<le> l \<and> K \<le> nl \<and> a = pos (below h v) hp C l p K then Some new_n
          else if K \<le> l \<and> K \<le> nl \<and> a = new_n then nxt h1 K (pos (below h v) hp C l p K)
          else nxt h1 K a)"
    unfolding below1 by auto
  have "insert_down h t v new_n nl (Suc l) cur =
      Some (Inr (h', pos (below h v) hp C l p 0))"
    by (simp add: scan link h'(1))
  then have "insert_down h t v new_n nl (Suc l) cur =
      Some (Inr (h', pos (below h v) hp C (Suc l) cur 0))"
    by (simp add: p_def)
  moreover have "same_nodes h h'" using same1 h'(2) by (rule same_nodes_trans)
  moreover have "prv h' = prv h" using h'(3) prv1 by simp
  moreover have "\<forall>K a. nxt h' K a =
      (if K \<le> Suc l \<and> K \<le> nl \<and> a = pos (below h v) hp C (Suc l) cur K then Some new_n
       else if K \<le> Suc l \<and> K \<le> nl \<and> a = new_n
            then nxt h K (pos (below h v) hp C (Suc l) cur K)
       else nxt h K a)"
  proof (intro allI)
    fix K a
    consider "K \<le> l" | "K = Suc l" | "Suc l < K" by linarith
    then show "nxt h' K a =
      (if K \<le> Suc l \<and> K \<le> nl \<and> a = pos (below h v) hp C (Suc l) cur K then Some new_n
       else if K \<le> Suc l \<and> K \<le> nl \<and> a = new_n
            then nxt h K (pos (below h v) hp C (Suc l) cur K)
       else nxt h K a)"
    proof cases
      case 1
      then show ?thesis by (simp add: h'(4) nxt1 p_def)
    next
      case 2
      then show ?thesis using x by (simp add: h'(4) nxt1 p_def)
    next
      case 3
      then show ?thesis by (simp add: h'(4) nxt1)
    qed
  qed
  ultimately show ?case by blast
qed

subsection \<open>What the invariant gives\<close>

lemma sl_rep_lvl: "sl_rep s C \<Longrightarrow> L \<le> max_levels \<Longrightarrow> lvl (heap s) (m_head s) (m_tail s) L (C L)"
  unfolding sl_rep_def by blast

lemma sl_rep_sorted: "sl_rep s C \<Longrightarrow> L \<le> max_levels \<Longrightarrow> sorted_wrt (le_val (heap s)) (C L)"
  unfolding sl_rep_def by blast

lemma sl_rep_members:
  "sl_rep s C \<Longrightarrow> L \<le> max_levels \<Longrightarrow> set (C L) = {a \<in> set (C 0). L \<le> lev (heap s) a}"
  unfolding sl_rep_def by blast

lemma sl_rep_nested:
  "sl_rep s C \<Longrightarrow> Suc K \<le> max_levels \<Longrightarrow> set (C (Suc K)) \<subseteq> set (C K)"
  using sl_rep_members[of s C "Suc K"] sl_rep_members[of s C K] by auto

lemma sl_rep_live: "sl_rep s C \<Longrightarrow> (heap s a \<noteq> None) = (a = m_head s \<or> a = m_tail s \<or> a \<in> set (C 0))"
  unfolding sl_rep_def by blast

lemma sl_rep_fresh: "sl_rep s C \<Longrightarrow> brk s \<le> a \<Longrightarrow> heap s a = None"
  unfolding sl_rep_def by blast

lemma sl_rep_node:
  "sl_rep s C \<Longrightarrow> a \<in> set (C 0) \<Longrightarrow>
     len (heap s) a = lev (heap s) a + 1 \<and> lev (heap s) a \<le> max_levels"
  unfolding sl_rep_def by blast

lemma sl_rep_head:
  "sl_rep s C \<Longrightarrow> m_head s \<noteq> m_tail s \<and> lev (heap s) (m_head s) = max_levels \<and>
     len (heap s) (m_head s) = max_levels + 1 \<and> m_levels s = max_levels"
  unfolding sl_rep_def by blast

lemma sl_rep_chain_sub: "sl_rep s C \<Longrightarrow> L \<le> max_levels \<Longrightarrow> set (C L) \<subseteq> set (C 0)"
  using sl_rep_members[of s C L] by auto

lemma sl_rep_fresh_notin:
  assumes "sl_rep s C" "L \<le> max_levels"
  shows "brk s \<notin> set (m_head s # C L)"
proof -
  have "heap s (brk s) = None" using assms(1) by (simp add: sl_rep_fresh)
  then have "brk s \<noteq> m_head s \<and> brk s \<notin> set (C 0)"
    using sl_rep_live[OF assms(1), of "brk s"] by auto
  then show ?thesis using sl_rep_chain_sub[OF assms] by auto
qed

lemma sl_rep_start:
  assumes "sl_rep s C" "a \<in> set (m_head s # C 0)"
  shows "lev (heap s) a \<le> max_levels \<and> a \<in> set (m_head s # C (lev (heap s) a))"
proof (cases "a = m_head s")
  case True
  then show ?thesis using sl_rep_head[OF assms(1)] by simp
next
  case False
  with assms(2) have a: "a \<in> set (C 0)" by simp
  then have l: "lev (heap s) a \<le> max_levels" using sl_rep_node[OF assms(1)] by simp
  with a sl_rep_members[OF assms(1) l] show ?thesis by simp
qed

lemma below_alloc: "h a = None \<Longrightarrow> below (h(a \<mapsto> new_node v l)) v = below h v"
  by (rule ext) (simp add: below_def new_node_def)

lemma pos_in:
  assumes "cur \<in> set (hp # C l)" "\<And>K. K < l \<Longrightarrow> set (C (Suc K)) \<subseteq> set (C K)" "K \<le> l"
  shows "pos P hp C l cur K \<in> set (hp # C K)"
  using assms
proof (induction l arbitrary: cur)
  case 0
  then show ?case using scan_pos_in[of cur "hp # C 0" P] by simp
next
  case (Suc l)
  have q: "scan_pos P (hp # C (Suc l)) cur \<in> set (hp # C (Suc l))"
    using Suc.prems(1) by (rule scan_pos_in)
  show ?case
  proof (cases "K \<le> l")
    case True
    have "scan_pos P (hp # C (Suc l)) cur \<in> set (hp # C l)"
      using q Suc.prems(2)[of l] by auto
    from Suc.IH[OF this _ True] Suc.prems(2) True show ?thesis by simp
  next
    case False
    with Suc.prems(3) have "K = Suc l" by simp
    with q show ?thesis by simp
  qed
qed

subsection \<open>The effect of \<open>insert\<close>\<close>

lemma insert_sl_effect:
  fixes s :: "'a::linorder sl_impl" and rnd :: "nat \<Rightarrow> nat" and v :: 'a
    and C :: "nat \<Rightarrow> addr list" and start :: addr and hint :: ptr
  assumes rep: "sl_rep s C"
    and start: "start = (case hint of None \<Rightarrow> m_head s | Some a \<Rightarrow> a)"
      "start \<in> set (m_head s # C 0)"
  defines "nl \<equiv> random_level rnd"
    and "L0 \<equiv> lev (heap s) start"
  defines "p \<equiv> pos (below (heap s) v) (m_head s) C L0 start"
  shows "\<exists>h'. insert_sl s v rnd hint =
           Some (Inr (s\<lparr>heap := h', brk := Suc (brk s), m_size := m_size s + 1\<rparr>, brk s)) \<and>
         (\<forall>a. (h' a = None) = (a \<noteq> brk s \<and> heap s a = None)) \<and>
         (\<forall>a. val h' a = (if a = brk s then Some v else val (heap s) a)) \<and>
         (\<forall>a. lev h' a = (if a = brk s then nl else lev (heap s) a)) \<and>
         (\<forall>a. len h' a = (if a = brk s then nl + 1 else len (heap s) a)) \<and>
         (\<forall>K a. nxt h' K a =
            (if K \<le> L0 \<and> K \<le> nl \<and> a = p K then Some (brk s)
             else if K \<le> L0 \<and> K \<le> nl \<and> a = brk s then nxt (heap s) K (p K)
             else if a = brk s then None else nxt (heap s) K a)) \<and>
         (\<forall>a. prv h' a =
            (if Some a = nxt (heap s) 0 (p 0) then Some (brk s)
             else if a = brk s then Some (p 0) else prv (heap s) a))"
proof -
  let ?h = "heap s" and ?hp = "m_head s" and ?t = "m_tail s" and ?n = "brk s"
  define h0 where "h0 = ?h(?n \<mapsto> new_node v nl)"
  have fresh: "?h ?n = None" using rep by (simp add: sl_rep_fresh)
  have L0: "L0 \<le> max_levels" and st: "start \<in> set (?hp # C L0)"
    using sl_rep_start[OF rep start(2)] by (simp_all add: L0_def)
  have notin: "\<And>K. K \<le> L0 \<Longrightarrow> ?n \<notin> set (?hp # C K)"
    using sl_rep_fresh_notin[OF rep] L0 by simp
  have sn: "start \<noteq> ?n" using st notin[of L0] by auto
  have lvl0: "\<And>K. K \<le> L0 \<Longrightarrow> lvl h0 ?hp ?t K (C K)"
  proof -
    fix K assume K: "K \<le> L0"
    show "lvl h0 ?hp ?t K (C K)"
    proof (rule lvl_frame)
      show "lvl ?h ?hp ?t K (C K)" using rep K L0 by (simp add: sl_rep_lvl)
      show "\<And>x. x \<in> set (?hp # C K) \<Longrightarrow> nxt h0 K x = nxt ?h K x"
        using notin[OF K] by (auto simp: h0_def alloc_simps)
      show "\<And>x. x \<in> set (C K) \<Longrightarrow> h0 x \<noteq> None \<and> lev h0 x = lev ?h x"
        using notin[OF K] sl_rep_lvl[OF rep, of K] K L0
        by (auto simp: h0_def alloc_simps lvl_def)
    qed
  qed
  have nest: "\<And>K. K < L0 \<Longrightarrow> set (C (Suc K)) \<subseteq> set (C K)"
    using sl_rep_nested[OF rep] L0 by simp
  have len0: "nl < len h0 ?n" by (simp add: h0_def alloc_simps)
  have below0: "below h0 v = below ?h v" unfolding h0_def using fresh by (rule below_alloc)
  have "\<exists>h1. insert_down h0 ?t v ?n nl L0 start = Some (Inr (h1, p 0)) \<and>
      same_nodes h0 h1 \<and> prv h1 = prv h0 \<and>
      (\<forall>K a. nxt h1 K a =
         (if K \<le> L0 \<and> K \<le> nl \<and> a = p K then Some ?n
          else if K \<le> L0 \<and> K \<le> nl \<and> a = ?n then nxt h0 K (p K)
          else nxt h0 K a))"
    using insert_down_effect[of L0 h0 ?hp ?t C start ?n nl v, OF lvl0 nest st notin len0]
    unfolding below0 p_def .
  then obtain h1 where h1: "insert_down h0 ?t v ?n nl L0 start = Some (Inr (h1, p 0))"
      "same_nodes h0 h1" "prv h1 = prv h0"
      "\<And>K a. nxt h1 K a =
         (if K \<le> L0 \<and> K \<le> nl \<and> a = p K then Some ?n
          else if K \<le> L0 \<and> K \<le> nl \<and> a = ?n then nxt h0 K (p K)
          else nxt h0 K a)"
    by blast
  have pin: "\<And>K. K \<le> L0 \<Longrightarrow> p K \<in> set (?hp # C K)"
    unfolding p_def using st nest by (rule pos_in)
  have p0in: "p 0 \<in> set (?hp # C 0)" using pin[of 0] by simp
  have p0n: "p 0 \<noteq> ?n" using p0in notin[of 0] by auto
  have "path ?h 0 ?hp (C 0) ?t" using sl_rep_lvl[OF rep, of 0] by (simp add: lvl_def)
  from path_next_in[OF this p0in] obtain succ where
    succ: "nxt ?h 0 (p 0) = Some succ" "succ \<in> set (C 0 @ [?t])" by blast
  have succ_live: "?h succ \<noteq> None" using succ(2) sl_rep_live[OF rep, of succ] by auto
  have succ_n: "succ \<noteq> ?n" using succ_live fresh by auto
  have live1: "\<And>a. (h1 a = None) = (a \<noteq> ?n \<and> ?h a = None)"
    using h1(2) by (auto simp: same_nodes_def h0_def)
  have p0live: "h1 (p 0) \<noteq> None"
    using p0in sl_rep_live[OF rep, of "p 0"] live1[of "p 0"] by auto
  then obtain c where c: "h1 (p 0) = Some c" by auto
  have len_p0: "0 < len h1 (p 0)"
    using h1(2) nxt_Some_live[OF succ(1)] p0n by (simp add: same_nodes_def h0_def alloc_simps)
  have nx_p0: "nxt h1 0 (p 0) = Some ?n" by (simp add: h1(4))
  define h2 where "h2 = upd_prev h1 ?n (Some (p 0))"
  obtain n where n: "h2 ?n = Some n"
    using live1[of ?n] by (cases "h2 ?n") (auto simp: h2_def upd_simps)
  have len_n: "0 < len h2 ?n"
    using h1(2) by (simp add: h2_def upd_simps same_nodes_def h0_def alloc_simps)
  have nx_n: "nxt h2 0 ?n = Some succ"
    using p0n succ(1) by (simp add: h2_def upd_simps h1(4) h0_def alloc_simps)
  define h3 where "h3 = upd_prev h2 succ (Some ?n)"
  have succ2: "h2 succ \<noteq> None" using succ_live live1[of succ] by (simp add: h2_def upd_simps)
  have st_live: "h0 start \<noteq> None"
    using start(2) sl_rep_live[OF rep, of start] by (auto simp: h0_def)
  then obtain stn where stn: "h0 start = Some stn" by auto
  have stl: "m_level stn = L0"
    using stn sn by (simp add: L0_def lev_def h0_def)
  have run: "insert_sl s v rnd hint =
      Some (Inr (s\<lparr>heap := h3, brk := Suc ?n, m_size := m_size s + 1\<rparr>, ?n))"
    using stn stl h1(1) c len_p0 nx_p0 n len_n nx_n succ2 live1[of ?n]
    unfolding insert_sl_def Let_def start(1)[symmetric] nl_def[symmetric] h0_def[symmetric]
    by (simp add: load_Some next_at_nxt[where h=h1 and a="p 0"]
        next_at_nxt[where h=h2 and a="?n"] store_prev_upd h2_def[symmetric] h3_def[symmetric])
  have "\<forall>a. (h3 a = None) = (a \<noteq> ?n \<and> ?h a = None)"
    by (simp add: h3_def h2_def upd_simps live1)
  moreover have "\<forall>a. val h3 a = (if a = ?n then Some v else val ?h a)"
    using h1(2) by (simp add: h3_def h2_def upd_simps same_nodes_def h0_def alloc_simps)
  moreover have "\<forall>a. lev h3 a = (if a = ?n then nl else lev ?h a)"
    using h1(2) by (simp add: h3_def h2_def upd_simps same_nodes_def h0_def alloc_simps)
  moreover have "\<forall>a. len h3 a = (if a = ?n then nl + 1 else len ?h a)"
    using h1(2) by (simp add: h3_def h2_def upd_simps same_nodes_def h0_def alloc_simps)
  moreover have "\<forall>K a. nxt h3 K a =
            (if K \<le> L0 \<and> K \<le> nl \<and> a = p K then Some ?n
             else if K \<le> L0 \<and> K \<le> nl \<and> a = ?n then nxt ?h K (p K)
             else if a = ?n then None else nxt ?h K a)"
  proof (intro allI)
    fix K a
    have "nxt h3 K a = nxt h1 K a" by (simp add: h3_def h2_def upd_simps)
    also have "\<dots> = (if K \<le> L0 \<and> K \<le> nl \<and> a = p K then Some ?n
          else if K \<le> L0 \<and> K \<le> nl \<and> a = ?n then nxt h0 K (p K)
          else nxt h0 K a)" by (rule h1(4))
    also have "\<dots> = (if K \<le> L0 \<and> K \<le> nl \<and> a = p K then Some ?n
             else if K \<le> L0 \<and> K \<le> nl \<and> a = ?n then nxt ?h K (p K)
             else if a = ?n then None else nxt ?h K a)"
      using notin[of K] pin[of K] by (auto simp: h0_def alloc_simps)
    finally show "nxt h3 K a = (if K \<le> L0 \<and> K \<le> nl \<and> a = p K then Some ?n
             else if K \<le> L0 \<and> K \<le> nl \<and> a = ?n then nxt ?h K (p K)
             else if a = ?n then None else nxt ?h K a)" .
  qed
  moreover have "\<forall>a. prv h3 a =
            (if Some a = nxt ?h 0 (p 0) then Some ?n
             else if a = ?n then Some (p 0) else prv ?h a)"
    using succ2 live1[of ?n] succ(1) succ_n
    by (auto simp: h3_def h2_def upd_simps h1(3) h0_def alloc_simps)
  ultimately show ?thesis using run by blast
qed

subsection \<open>Sorted chains\<close>

lemma sorted_cut:
  assumes "sorted_wrt (le_val h) xs" "x \<in> set (dropWhile (below h v) xs)"
  shows "\<not> below h v x"
  using assms
proof (induction xs)
  case Nil
  then show ?case by simp
next
  case (Cons y ys)
  show ?case
  proof (cases "below h v y")
    case True
    with Cons show ?thesis by simp
  next
    case False
    with Cons.prems(2) have "x = y \<or> x \<in> set ys" by simp
    then show ?thesis
    proof
      assume "x = y" with False show ?thesis by simp
    next
      assume "x \<in> set ys"
      with Cons.prems(1) have "le_val h y x" by simp
      with False show ?thesis
        by (auto simp: le_val_def below_def split: option.splits)
    qed
  qed
qed

lemma scan_pos_sorted:
  assumes d: "distinct (hp # xs)" and c: "cur \<in> set (hp # xs)" and p: "cur = hp \<or> P cur"
    and cut: "\<And>x. x \<in> set (dropWhile P xs) \<Longrightarrow> \<not> P x"
  shows "scan_pos P (hp # xs) cur = last (hp # takeWhile P xs)"
proof (cases "cur = hp")
  case True
  then show ?thesis using scan_pos_split[of hp "[]" P xs] by simp
next
  case False
  define tk dr where "tk = takeWhile P xs" and "dr = dropWhile P xs"
  have split: "tk @ dr = xs" by (simp add: tk_def dr_def)
  have allP: "\<forall>y\<in>set tk. P y" unfolding tk_def using set_takeWhileD[of _ P xs] by blast
  have noP: "\<forall>y\<in>set dr. \<not> P y" unfolding dr_def using cut by blast
  from False c p have "cur \<in> set xs" and pc: "P cur" by auto
  then have "cur \<in> set tk \<or> cur \<in> set dr" unfolding split[symmetric] by simp
  with noP pc have "cur \<in> set tk" by blast
  then obtain pre post where tk: "tk = pre @ cur # post"
    by (auto dest: split_list)
  have "distinct (hp # pre @ cur # post @ dr)"
    using d unfolding split[symmetric] tk by simp
  then have npre: "cur \<notin> set (hp # pre)" by auto
  have "takeWhile P dr = []"
    using noP by (cases dr) auto
  then have "takeWhile P (post @ dr) = post"
    using allP tk by (simp add: takeWhile_append2)
  then have "scan_pos P ((hp # pre) @ cur # post @ dr) cur = last (cur # post)"
    using scan_pos_split[OF npre, of P "post @ dr"] by simp
  moreover have "(hp # pre) @ cur # post @ dr = hp # xs"
    unfolding split[symmetric] tk by simp
  moreover have "last (hp # takeWhile P xs) = last (cur # post)"
    using tk unfolding tk_def by simp
  ultimately show ?thesis by simp
qed

lemma pos_sorted:
  assumes "\<And>K. K \<le> l \<Longrightarrow> distinct (hp # C K)"
    and "\<And>K x. K \<le> l \<Longrightarrow> x \<in> set (dropWhile P (C K)) \<Longrightarrow> \<not> P x"
    and "\<And>K. K < l \<Longrightarrow> set (C (Suc K)) \<subseteq> set (C K)"
    and "cur \<in> set (hp # C l)" "cur = hp \<or> P cur" "K \<le> l"
  shows "pos P hp C l cur K = last (hp # takeWhile P (C K))"
  using assms
proof (induction l arbitrary: cur)
  case 0
  have "scan_pos P (hp # C 0) cur = last (hp # takeWhile P (C 0))"
  proof (rule scan_pos_sorted)
    show "distinct (hp # C 0)" using "0.prems"(1)[of 0] by simp
    show "cur \<in> set (hp # C 0)" by (rule "0.prems"(4))
    show "cur = hp \<or> P cur" by (rule "0.prems"(5))
    show "\<And>x. x \<in> set (dropWhile P (C 0)) \<Longrightarrow> \<not> P x"
      by (rule "0.prems"(2)[of 0]) simp_all
  qed
  with "0.prems"(6) show ?case by simp
next
  case (Suc l)
  define q where "q = scan_pos P (hp # C (Suc l)) cur"
  have q: "q = last (hp # takeWhile P (C (Suc l)))"
    unfolding q_def
  proof (rule scan_pos_sorted)
    show "distinct (hp # C (Suc l))" using Suc.prems(1)[of "Suc l"] by simp
    show "cur \<in> set (hp # C (Suc l))" by (rule Suc.prems(4))
    show "cur = hp \<or> P cur" by (rule Suc.prems(5))
    show "\<And>x. x \<in> set (dropWhile P (C (Suc l))) \<Longrightarrow> \<not> P x"
      by (rule Suc.prems(2)[of "Suc l"]) simp_all
  qed
  show ?case
  proof (cases "K \<le> l")
    case True
    have "q \<in> set (hp # takeWhile P (C (Suc l)))"
      unfolding q by (rule last_in_set) simp
    then have qq: "q = hp \<or> (P q \<and> q \<in> set (C (Suc l)))"
      using set_takeWhileD[of q P "C (Suc l)"] by auto
    then have qin: "q \<in> set (hp # C l)" using Suc.prems(3)[of l] by auto
    have qp: "q = hp \<or> P q" using qq by blast
    have "pos P hp C l q K = last (hp # takeWhile P (C K))"
    proof (rule Suc.IH[OF _ _ _ qin qp True])
      fix K assume "K \<le> l"
      then have K: "K \<le> Suc l" by simp
      then show "distinct (hp # C K)" by (rule Suc.prems(1))
      fix x assume "x \<in> set (dropWhile P (C K))"
      with K show "\<not> P x" by (rule Suc.prems(2))
    next
      fix K assume "K < l"
      then have "K < Suc l" by simp
      then show "set (C (Suc K)) \<subseteq> set (C K)" by (rule Suc.prems(3))
    qed
    with True show ?thesis by (simp add: q_def)
  next
    case False
    with Suc.prems(6) have "K = Suc l" by simp
    with q show ?thesis by (simp add: q_def)
  qed
qed

lemma splice_sorted:
  "distinct (a # xs) \<Longrightarrow>
     splice (last (a # takeWhile P xs)) n a xs = takeWhile P xs @ n # dropWhile P xs"
proof (induction xs arbitrary: a)
  case Nil
  then show ?case by simp
next
  case (Cons x xs)
  show ?case
  proof (cases "P x")
    case True
    have "last (x # takeWhile P xs) \<in> set (x # takeWhile P xs)"
      by (rule last_in_set) simp
    then have "last (x # takeWhile P xs) \<in> set (x # xs)"
      using set_takeWhileD[of _ P xs] by auto
    then have ne: "last (x # takeWhile P xs) \<noteq> a" using Cons.prems by auto
    have "splice (last (x # takeWhile P xs)) n x xs = takeWhile P xs @ n # dropWhile P xs"
      using Cons.prems by (intro Cons.IH) simp
    with True ne show ?thesis by simp
  next
    case False
    then show ?thesis by simp
  qed
qed

subsection \<open>Linking a node into a chain\<close>

lemma path_splice:
  assumes "path h L a xs b" "p \<in> set (a # xs)" "distinct (a # xs)" "n \<notin> set (a # xs)"
    and "nxt h' L n = nxt h L p" "nxt h' L p = Some n"
    and "\<And>x. x \<in> set (a # xs) \<Longrightarrow> x \<noteq> p \<Longrightarrow> nxt h' L x = nxt h L x"
  shows "path h' L a (splice p n a xs) b"
  using assms(1-4,7)
proof (induction xs arbitrary: a)
  case Nil
  then show ?case using assms(5,6) by simp
next
  case (Cons x xs)
  show ?case
  proof (cases "p = a")
    case True
    have "path h' L x xs b = path h L x xs b"
      using Cons.prems(3,5) True by (intro path_frame) auto
    with True Cons.prems(1) assms(5,6) show ?thesis by simp
  next
    case False
    have "path h' L x (splice p n x xs) b"
      using Cons.prems False by (intro Cons.IH) auto
    moreover have "nxt h' L a = nxt h L a" using Cons.prems(5)[of a] False by simp
    ultimately show ?thesis using False Cons.prems(1) by simp
  qed
qed

lemma back_path_splice:
  assumes "back_path h a xs b" "path h 0 a xs b" "p \<in> set (a # xs)"
    and "distinct (a # xs @ [b])" "n \<notin> set (a # xs @ [b])"
    and "\<And>x. prv h' x = (if Some x = nxt h 0 p then Some n
                           else if x = n then Some p else prv h x)"
  shows "back_path h' a (splice p n a xs) b"
  using assms(1-5)
proof (induction xs arbitrary: a)
  case Nil
  then show ?case using assms(6) by auto
next
  case (Cons x xs)
  show ?case
  proof (cases "p = a")
    case True
    have "back_path h' x xs b = back_path h x xs b"
      using Cons.prems True by (intro back_path_frame) (auto simp: assms(6))
    with True Cons.prems show ?thesis by (auto simp: assms(6))
  next
    case False
    with Cons.prems(3) have pin: "p \<in> set (x # xs)" by simp
    from Cons.prems(2) have px: "path h 0 x xs b" by simp
    from path_next_in[OF px pin] obtain y where y: "nxt h 0 p = Some y" "y \<in> set (xs @ [b])"
      by blast
    have "back_path h' x (splice p n x xs) b"
      using Cons.prems pin by (intro Cons.IH) auto
    moreover have "prv h' x = prv h x" using y Cons.prems(4,5) by (auto simp: assms(6))
    ultimately show ?thesis using False Cons.prems(1) by simp
  qed
qed

lemma set_splice: "p \<in> set (a # xs) \<Longrightarrow> set (splice p n a xs) = insert n (set xs)"
  by (induction xs arbitrary: a) auto

subsection \<open>\<open>random_level\<close>\<close>

lemma random_loop_bounds:
  "1 \<le> level \<Longrightarrow> level \<le> max_levels \<Longrightarrow>
     1 \<le> random_loop rnd i level \<and> random_loop rnd i level \<le> max_levels"
proof (induction rnd i level rule: random_loop.induct)
  case (1 rnd i level)
  show ?case
  proof (cases "level < max_levels \<and> toss_a_coin (rnd i)")
    case True
    then have "random_loop rnd i level = random_loop rnd (Suc i) (Suc level)"
      by (subst random_loop.simps) simp
    with True "1.IH" show ?thesis by simp
  next
    case False
    then have "random_loop rnd i level = level"
      by (subst random_loop.simps) auto
    with "1.prems" show ?thesis by simp
  qed
qed

lemma random_level_bounds: "1 \<le> random_level rnd \<and> random_level rnd \<le> max_levels"
  unfolding random_level_def by (rule random_loop_bounds) (simp_all add: max_levels_def)

subsection \<open>\<open>insert\<close> without a hint keeps the invariant\<close>

lemma sl_rep_distinct:
  assumes "sl_rep s C" "L \<le> max_levels"
  shows "distinct (m_head s # C L @ [m_tail s])"
  using sl_rep_lvl[OF assms] sl_rep_head[OF assms(1)] by (auto simp: lvl_def)

lemma sl_rep_cut:
  assumes "sl_rep s C" "L \<le> max_levels" "x \<in> set (dropWhile (below (heap s) v) (C L))"
  shows "\<not> below (heap s) v x"
  using sl_rep_sorted[OF assms(1,2)] assms(3) by (rule sorted_cut)

lemma sl_rep_pos_head:
  assumes "sl_rep s C" "K \<le> max_levels"
  shows "pos (below (heap s) v) (m_head s) C max_levels (m_head s) K =
         last (m_head s # takeWhile (below (heap s) v) (C K))"
proof (rule pos_sorted)
  fix L assume L: "L \<le> max_levels"
  show "distinct (m_head s # C L)" using sl_rep_distinct[OF assms(1) L] by simp
  fix x assume "x \<in> set (dropWhile (below (heap s) v) (C L))"
  with assms(1) L show "\<not> below (heap s) v x" by (rule sl_rep_cut)
next
  fix L assume "L < max_levels"
  then show "set (C (Suc L)) \<subseteq> set (C L)" using sl_rep_nested[OF assms(1), of L] by simp
next
  show "m_head s \<in> set (m_head s # C max_levels)" by simp
  show "m_head s = m_head s \<or> below (heap s) v (m_head s)" by simp
  show "K \<le> max_levels" by (rule assms(2))
qed

lemma sorted_wrt_insert_val:
  fixes h :: "'a::linorder heap"
  assumes s: "sorted_wrt (le_val h) xs" and live: "\<And>a. a \<in> set xs \<Longrightarrow> h a \<noteq> None"
    and v: "\<And>a. a \<in> set xs \<Longrightarrow> val h' a = val h a" and n: "val h' n = Some v"
  shows "sorted_wrt (le_val h') (takeWhile (below h v) xs @ n # dropWhile (below h v) xs)"
proof -
  define tk dr where "tk = takeWhile (below h v) xs" and "dr = dropWhile (below h v) xs"
  have split: "tk @ dr = xs" by (simp add: tk_def dr_def)
  have sub: "set tk \<subseteq> set xs" "set dr \<subseteq> set xs" unfolding split[symmetric] by auto
  have s': "sorted_wrt (le_val h') xs"
  proof (rule sorted_wrt_mono_rel[OF _ s])
    fix x y assume "x \<in> set xs" "y \<in> set xs" "le_val h x y"
    then show "le_val h' x y" using v[of x] v[of y]
      by (auto simp: le_val_val split: option.splits)
  qed
  then have "sorted_wrt (le_val h') (tk @ dr)" by (simp add: split)
  then have parts: "sorted_wrt (le_val h') tk" "sorted_wrt (le_val h') dr"
      "\<forall>x\<in>set tk. \<forall>y\<in>set dr. le_val h' x y"
    by (simp_all add: sorted_wrt_append)
  have lo: "\<forall>x\<in>set tk. le_val h' x n"
  proof
    fix x assume x: "x \<in> set tk"
    then have "below h v x" unfolding tk_def using set_takeWhileD[of x "below h v" xs] by blast
    moreover have "val h' x = val h x" using x sub v by blast
    ultimately show "le_val h' x n" using n
      by (auto simp: le_val_val below_val split: option.splits)
  qed
  have hi: "\<forall>y\<in>set dr. le_val h' n y"
  proof
    fix y assume y: "y \<in> set dr"
    then have "\<not> below h v y" unfolding dr_def using s by (intro sorted_cut)
    moreover have "val h' y = val h y" "h y \<noteq> None" using y sub v live by blast+
    ultimately show "le_val h' n y" using n
      by (auto simp: le_val_val below_val val_def split: option.splits)
  qed
  have "sorted_wrt (le_val h') (tk @ n # dr)"
    using parts lo hi by (simp add: sorted_wrt_append)
  then show ?thesis by (simp add: tk_def dr_def)
qed

lemma set_take_drop: "set (takeWhile P xs @ n # dropWhile P xs) = insert n (set xs)"
proof -
  have "set (takeWhile P xs @ dropWhile P xs) = set xs" by simp
  then show ?thesis by (simp only: set_append set_simps) blast
qed

lemma distinct_take_drop:
  "distinct xs \<Longrightarrow> n \<notin> set xs \<Longrightarrow> distinct (takeWhile P xs @ n # dropWhile P xs)"
proof -
  assume a: "distinct xs" "n \<notin> set xs"
  have "distinct (takeWhile P xs @ dropWhile P xs)" using a by simp
  moreover have "n \<notin> set (takeWhile P xs)" "n \<notin> set (dropWhile P xs)"
    using a(2) set_takeWhileD[of n P xs] set_dropWhileD[of n P xs] by blast+
  ultimately show ?thesis by (simp only: distinct_append distinct.simps set_simps) blast
qed

lemma set_ins_chain: "set (ins_chain P n xs) = insert n (set xs)"
  unfolding ins_chain_def by (rule set_take_drop)

lemma distinct_ins_chain: "distinct xs \<Longrightarrow> n \<notin> set xs \<Longrightarrow> distinct (ins_chain P n xs)"
  unfolding ins_chain_def by (rule distinct_take_drop)

lemma length_ins_chain: "length (ins_chain P n xs) = Suc (length xs)"
proof -
  have "length (takeWhile P xs @ dropWhile P xs) = length xs" by simp
  then show ?thesis unfolding ins_chain_def by (simp only: length_append list.size)
qed

lemma sl_rep_size: "sl_rep s C \<Longrightarrow> m_size s = of_nat (length (C 0))"
  unfolding sl_rep_def by blast

lemma sl_rep_back: "sl_rep s C \<Longrightarrow> back_path (heap s) (m_head s) (C 0) (m_tail s)"
  unfolding sl_rep_def by blast

lemma sl_rep_tail: "sl_rep s C \<Longrightarrow> heap s (m_tail s) \<noteq> None"
  unfolding sl_rep_def by blast

lemma sl_repI:
  assumes "heap s = h" "m_head s = hp" "m_tail s = t" "brk s = b"
    and "m_levels s = max_levels" "m_size s = of_nat (length (C 0))"
    and "hp \<noteq> t" "lev h hp = max_levels" "len h hp = max_levels + 1" "h t \<noteq> None"
    and "\<And>a. (h a \<noteq> None) = (a = hp \<or> a = t \<or> a \<in> set (C 0))"
    and "\<And>a. b \<le> a \<Longrightarrow> h a = None"
    and "\<And>L. L \<le> max_levels \<Longrightarrow> lvl h hp t L (C L)"
    and "\<And>L. L \<le> max_levels \<Longrightarrow> sorted_wrt (le_val h) (C L)"
    and "\<And>L. L \<le> max_levels \<Longrightarrow> set (C L) = {a \<in> set (C 0). L \<le> lev h a}"
    and "\<And>a. a \<in> set (C 0) \<Longrightarrow> len h a = lev h a + 1 \<and> lev h a \<le> max_levels"
    and "back_path h hp (C 0) t"
  shows "sl_rep s C"
  unfolding sl_rep_def assms(1-4) using assms(5-) by blast

lemma insert_sl_rep:
  fixes s :: "'a::linorder sl_impl" and rnd :: "nat \<Rightarrow> nat" and v :: 'a
    and C :: "nat \<Rightarrow> addr list"
  assumes rep: "sl_rep s C"
  defines "nl \<equiv> random_level rnd"
  defines "P \<equiv> below (heap s) v"
  defines "C' \<equiv> (\<lambda>K. if K \<le> nl then ins_chain P (brk s) (C K) else C K)"
  shows "\<exists>h'. insert_sl s v rnd None =
           Some (Inr (s\<lparr>heap := h', brk := Suc (brk s), m_size := m_size s + 1\<rparr>, brk s)) \<and>
         sl_rep (s\<lparr>heap := h', brk := Suc (brk s), m_size := m_size s + 1\<rparr>) C' \<and>
         (\<forall>a. val h' a = (if a = brk s then Some v else val (heap s) a)) \<and>
         (\<forall>a. lev h' a = (if a = brk s then nl else lev (heap s) a))"
proof -
  let ?h = "heap s" and ?hp = "m_head s" and ?t = "m_tail s" and ?n = "brk s"
  define p where "p = (\<lambda>K. last (?hp # takeWhile P (C K)))"
  have hd: "?hp \<noteq> ?t" "lev ?h ?hp = max_levels" "len ?h ?hp = max_levels + 1"
      "m_levels s = max_levels"
    using sl_rep_head[OF rep] by simp_all
  have nl: "1 \<le> nl" "nl \<le> max_levels" using random_level_bounds[of rnd] by (simp_all add: nl_def)
  have pos_p: "\<And>K. K \<le> max_levels \<Longrightarrow> pos P ?hp C max_levels ?hp K = p K"
    unfolding P_def p_def using rep by (rule sl_rep_pos_head)
  have st1: "m_head s = (case None :: ptr of None \<Rightarrow> m_head s | Some a \<Rightarrow> a)" by simp
  have st2: "m_head s \<in> set (m_head s # C 0)" by simp
  note E = insert_sl_effect[OF rep st1 st2, where rnd=rnd and v=v,
      unfolded hd(2) nl_def[symmetric] P_def[symmetric]]
  from E obtain h' where eff:
      "insert_sl s v rnd None =
           Some (Inr (s\<lparr>heap := h', brk := Suc ?n, m_size := m_size s + 1\<rparr>, ?n))"
      "\<And>a. (h' a = None) = (a \<noteq> ?n \<and> ?h a = None)"
      "\<And>a. val h' a = (if a = ?n then Some v else val ?h a)"
      "\<And>a. lev h' a = (if a = ?n then nl else lev ?h a)"
      "\<And>a. len h' a = (if a = ?n then nl + 1 else len ?h a)"
      "\<And>K a. nxt h' K a =
            (if K \<le> max_levels \<and> K \<le> nl \<and> a = pos P ?hp C max_levels ?hp K then Some ?n
             else if K \<le> max_levels \<and> K \<le> nl \<and> a = ?n
                  then nxt ?h K (pos P ?hp C max_levels ?hp K)
             else if a = ?n then None else nxt ?h K a)"
      "\<And>a. prv h' a =
            (if Some a = nxt ?h 0 (pos P ?hp C max_levels ?hp 0) then Some ?n
             else if a = ?n then Some (pos P ?hp C max_levels ?hp 0) else prv ?h a)"
    by blast
  have nxt': "\<And>K a. K \<le> max_levels \<Longrightarrow> nxt h' K a =
            (if K \<le> nl \<and> a = p K then Some ?n
             else if K \<le> nl \<and> a = ?n then nxt ?h K (p K)
             else if a = ?n then None else nxt ?h K a)"
    by (simp add: eff(6) pos_p)
  have prv': "\<And>a. prv h' a =
            (if Some a = nxt ?h 0 (p 0) then Some ?n
             else if a = ?n then Some (p 0) else prv ?h a)"
    by (simp add: eff(7) pos_p)
  have fresh: "?h ?n = None" using rep by (simp add: sl_rep_fresh)
  have notin: "\<And>K. K \<le> max_levels \<Longrightarrow> ?n \<notin> set (?hp # C K @ [?t])"
  proof -
    fix K assume "K \<le> max_levels"
    then have "?n \<notin> set (?hp # C K)" using rep by (intro sl_rep_fresh_notin)
    moreover have "?n \<noteq> ?t" using fresh sl_rep_tail[OF rep] by auto
    ultimately show "?n \<notin> set (?hp # C K @ [?t])" by simp
  qed
  have splice_eq: "\<And>K. K \<le> max_levels \<Longrightarrow>
      splice (p K) ?n ?hp (C K) = ins_chain P ?n (C K)"
    unfolding p_def ins_chain_def using sl_rep_distinct[OF rep] by (intro splice_sorted) simp
  have pin: "\<And>K. K \<le> max_levels \<Longrightarrow> p K \<in> set (?hp # C K)"
  proof -
    fix K assume "K \<le> max_levels"
    have "p K \<in> set (?hp # takeWhile P (C K))" unfolding p_def by (rule last_in_set) simp
    then show "p K \<in> set (?hp # C K)" using set_takeWhileD[of "p K" P "C K"] by auto
  qed
  let ?s' = "s\<lparr>heap := h', brk := Suc ?n, m_size := m_size s + 1\<rparr>"
  have lvl': "\<And>L. L \<le> max_levels \<Longrightarrow> lvl h' ?hp ?t L (C' L)"
  proof -
    fix L assume L: "L \<le> max_levels"
    have old: "lvl ?h ?hp ?t L (C L)" using rep L by (rule sl_rep_lvl)
    have d: "distinct (?hp # C L @ [?t])" using rep L by (rule sl_rep_distinct)
    show "lvl h' ?hp ?t L (C' L)"
    proof (cases "L \<le> nl")
      case True
      have "path h' L ?hp (splice (p L) ?n ?hp (C L)) ?t"
      proof (rule path_splice)
        show "path ?h L ?hp (C L) ?t" using old by (simp add: lvl_def)
        show "p L \<in> set (?hp # C L)" using L by (rule pin)
        show "distinct (?hp # C L)" using d by simp
        show "?n \<notin> set (?hp # C L)" using notin[OF L] by simp
        show "nxt h' L ?n = nxt ?h L (p L)" using True L pin[OF L] notin[OF L]
          by (auto simp: nxt')
        show "nxt h' L (p L) = Some ?n" using True L by (simp add: nxt')
        show "\<And>x. x \<in> set (?hp # C L) \<Longrightarrow> x \<noteq> p L \<Longrightarrow> nxt h' L x = nxt ?h L x"
          using notin[OF L] L by (auto simp: nxt')
      qed
      then have "path h' L ?hp (C' L) ?t" using True L by (simp add: C'_def splice_eq)
      moreover have "distinct (C' L)" using True d notin[OF L]
        by (simp add: C'_def distinct_ins_chain)
      moreover have "?hp \<notin> set (C' L)" "?t \<notin> set (C' L)" using True d notin[OF L]
        by (auto simp: C'_def set_ins_chain)
      moreover have "\<forall>a\<in>set (C' L). h' a \<noteq> None \<and> L \<le> lev h' a"
        using True old by (auto simp: C'_def set_ins_chain eff(2,4) lvl_def)
      ultimately show ?thesis by (simp add: lvl_def)
    next
      case False
      have "lvl h' ?hp ?t L (C L)"
      proof (rule lvl_frame[OF old])
        show "\<And>x. x \<in> set (?hp # C L) \<Longrightarrow> nxt h' L x = nxt ?h L x"
          using False notin[OF L] L by (auto simp: nxt')
        show "\<And>x. x \<in> set (C L) \<Longrightarrow> h' x \<noteq> None \<and> lev h' x = lev ?h x"
          using old notin[OF L] by (auto simp: eff(2,4) lvl_def)
      qed
      with False show ?thesis by (simp add: C'_def)
    qed
  qed
  have sorted': "\<And>L. L \<le> max_levels \<Longrightarrow> sorted_wrt (le_val h') (C' L)"
  proof -
    fix L assume L: "L \<le> max_levels"
    have old: "sorted_wrt (le_val ?h) (C L)" using rep L by (rule sl_rep_sorted)
    have lv: "lvl ?h ?hp ?t L (C L)" using rep L by (rule sl_rep_lvl)
    have same: "\<And>a. a \<in> set (C L) \<Longrightarrow> val h' a = val ?h a"
      using notin[OF L] by (auto simp: eff(3))
    show "sorted_wrt (le_val h') (C' L)"
    proof (cases "L \<le> nl")
      case True
      have "sorted_wrt (le_val h') (takeWhile (below ?h v) (C L) @ ?n # dropWhile (below ?h v) (C L))"
        using old _ same
      proof (rule sorted_wrt_insert_val)
        show "\<And>a. a \<in> set (C L) \<Longrightarrow> ?h a \<noteq> None" using lv by (simp add: lvl_def)
        show "val h' ?n = Some v" by (simp add: eff(3))
      qed
      with True show ?thesis by (simp add: C'_def P_def ins_chain_def)
    next
      case False
      have "sorted_wrt (le_val h') (C L)"
      proof (rule sorted_wrt_mono_rel[OF _ old])
        fix x y assume "x \<in> set (C L)" "y \<in> set (C L)" "le_val ?h x y"
        then show "le_val h' x y" using same[of x] same[of y]
          by (auto simp: le_val_val split: option.splits)
      qed
      with False show ?thesis by (simp add: C'_def)
    qed
  qed
  have C'0: "C' 0 = splice (p 0) ?n ?hp (C 0)" by (simp add: C'_def splice_eq)
  have set0: "set (C' 0) = insert ?n (set (C 0))" by (simp add: C'_def set_ins_chain)
  have members': "\<And>L. L \<le> max_levels \<Longrightarrow> set (C' L) = {a \<in> set (C' 0). L \<le> lev h' a}"
  proof -
    fix L assume L: "L \<le> max_levels"
    have old: "set (C L) = {a \<in> set (C 0). L \<le> lev ?h a}" using rep L by (rule sl_rep_members)
    have n0: "?n \<notin> set (C 0)" using notin[of 0] by simp
    show "set (C' L) = {a \<in> set (C' 0). L \<le> lev h' a}"
      unfolding set0 using old n0 by (auto simp: C'_def set_ins_chain eff(4))
  qed
  have nodes': "\<forall>a\<in>set (C' 0). len h' a = lev h' a + 1 \<and> lev h' a \<le> max_levels"
    unfolding set0 using sl_rep_node[OF rep] nl(2) by (auto simp: eff(4,5))
  have back': "back_path h' ?hp (C' 0) ?t"
    unfolding C'0
  proof (rule back_path_splice)
    show "back_path ?h ?hp (C 0) ?t" using rep by (rule sl_rep_back)
    show "path ?h 0 ?hp (C 0) ?t" using sl_rep_lvl[OF rep, of 0] by (simp add: lvl_def)
    show "p 0 \<in> set (?hp # C 0)" by (rule pin) simp
    show "distinct (?hp # C 0 @ [?t])" using sl_rep_distinct[OF rep, of 0] by simp
    show "?n \<notin> set (?hp # C 0 @ [?t])" using notin[of 0] by simp
    show "\<And>x. prv h' x = (if Some x = nxt ?h 0 (p 0) then Some ?n
                           else if x = ?n then Some (p 0) else prv ?h x)"
      by (rule prv')
  qed
  have n0: "?n \<notin> set (C 0)" "?hp \<noteq> ?n" "?t \<noteq> ?n" using notin[of 0] by auto
  have "sl_rep ?s' C'"
  proof (rule sl_repI[where h=h' and hp="?hp" and t="?t" and b="Suc ?n"])
    show "heap ?s' = h'" "m_head ?s' = ?hp" "m_tail ?s' = ?t" "brk ?s' = Suc ?n" by simp_all
    show "m_levels ?s' = max_levels" using hd(4) by simp
    show "m_size ?s' = of_nat (length (C' 0))"
      using sl_rep_size[OF rep] by (simp add: C'_def length_ins_chain)
    show "?hp \<noteq> ?t" by (rule hd(1))
    show "lev h' ?hp = max_levels" using hd(2) n0 by (simp add: eff(4))
    show "len h' ?hp = max_levels + 1" using hd(3) n0 by (simp add: eff(5))
    show "h' ?t \<noteq> None" using sl_rep_tail[OF rep] by (simp add: eff(2))
    show "\<And>a. (h' a \<noteq> None) = (a = ?hp \<or> a = ?t \<or> a \<in> set (C' 0))"
      unfolding set0 using sl_rep_live[OF rep] by (auto simp: eff(2))
    show "\<And>a. Suc ?n \<le> a \<Longrightarrow> h' a = None"
      using sl_rep_fresh[OF rep] by (auto simp: eff(2))
    show "\<And>L. L \<le> max_levels \<Longrightarrow> lvl h' ?hp ?t L (C' L)" by (rule lvl')
    show "\<And>L. L \<le> max_levels \<Longrightarrow> sorted_wrt (le_val h') (C' L)" by (rule sorted')
    show "\<And>L. L \<le> max_levels \<Longrightarrow> set (C' L) = {a \<in> set (C' 0). L \<le> lev h' a}"
      by (rule members')
    show "\<And>a. a \<in> set (C' 0) \<Longrightarrow> len h' a = lev h' a + 1 \<and> lev h' a \<le> max_levels"
      using nodes' by blast
    show "back_path h' ?hp (C' 0) ?t" by (rule back')
  qed
  with eff(1,3,4) show ?thesis by blast
qed

subsection \<open>The descent of \<open>remove\<close>\<close>

lemma remove_unlink_eq:
  assumes "nxt h L cur = Some x" "x = node \<Longrightarrow> h node \<noteq> None \<and> L < len h node"
  shows "remove_unlink h node L cur =
     Inr (if x = node then upd_next h cur L (nxt h L node) else h)"
proof -
  from nxt_Some_live[OF assms(1)] obtain c where c: "h cur = Some c" and l: "L < len h cur"
    by auto
  show ?thesis
  proof (cases "x = node")
    case True
    with assms(2) obtain d where d: "h node = Some d" and ld: "L < len h node" by auto
    show ?thesis
      using assms(1) c l d ld True
      by (simp add: remove_unlink_def load_Some next_at_nxt[where h=h and a=cur, OF c]
          next_at_nxt[where h=h and a=node, OF d] store_next_upd)
  next
    case False
    then show ?thesis
      using assms(1) c l
      by (simp add: remove_unlink_def load_Some next_at_nxt[where h=h and a=cur, OF c])
  qed
qed

lemma below_irrefl: "val h a = Some w \<Longrightarrow> \<not> below h w a"
  by (auto simp: below_val)

lemma scan_pos_cases: "scan_pos P ys cur = cur \<or> P (scan_pos P ys cur)"
proof -
  have "last (cur # takeWhile P (tl (dropWhile (\<lambda>a. a \<noteq> cur) ys)))
      \<in> set (cur # takeWhile P (tl (dropWhile (\<lambda>a. a \<noteq> cur) ys)))"
    by (rule last_in_set) simp
  then show ?thesis
    unfolding scan_pos_def
    using set_takeWhileD[of _ P "tl (dropWhile (\<lambda>a. a \<noteq> cur) ys)"] by auto
qed

lemma remove_down_effect:
  fixes h :: "'a::linorder heap"
  assumes "\<And>K. K \<le> level \<Longrightarrow> lvl h hp t K (C K)"
    and "\<And>K. K < level \<Longrightarrow> set (C (Suc K)) \<subseteq> set (C K)"
    and "cur \<in> set (hp # C level)" "cur \<noteq> node" "level \<le> lev h hp"
    and "val h node = Some w"
    and "\<And>K. K \<le> level \<Longrightarrow> node \<in> set (C K) \<Longrightarrow> K < len h node"
    and "node \<noteq> t"
  shows "\<exists>h'. remove_down h t node (Suc level) cur = Some (Inr h') \<and>
          same_nodes h h' \<and> prv h' = prv h \<and>
          (\<forall>K a. nxt h' K a =
             (if K \<le> level \<and> a = pos (below h w) hp C level cur K \<and>
                 nxt h K (pos (below h w) hp C level cur K) = Some node
              then nxt h K node else nxt h K a))"
  using assms
proof (induction level arbitrary: h cur)
  case 0
  define q where "q = scan_pos (below h w) (hp # C 0) cur"
  from "0.prems"(6) obtain d where d: "h node = Some d" "m_value d = w"
    by (auto simp: val_def)
  have l0: "lvl h hp t 0 (C 0)" using "0.prems"(1) by simp
  have pth: "path h 0 hp (C 0) t" using l0 by (simp add: lvl_def)
  from path_next_in[OF pth "0.prems"(3)] obtain y where "nxt h 0 cur = Some y" by blast
  from nxt_Some_live[OF this] obtain c where c: "h cur = Some c" by auto
  have scan: "remove_scan h t node 0 cur = Some (Inr q)"
    unfolding q_def d(2)[symmetric] using l0 "0.prems"(3) d(1) by (rule remove_scan_lvl)
  have qin: "q \<in> set (hp # C 0)" unfolding q_def using "0.prems"(3) by (rule scan_pos_in)
  from path_next_in[OF pth qin] obtain x where x: "nxt h 0 q = Some x" "x \<in> set (C 0 @ [t])"
    by blast
  have xn: "x = node \<Longrightarrow> h node \<noteq> None \<and> 0 < len h node"
    using x(2) l0 "0.prems"(7)[of 0] "0.prems"(8) d(1) by (auto simp: lvl_def)
  define h1 where "h1 = (if x = node then upd_next h q 0 (nxt h 0 node) else h)"
  have unl: "remove_unlink h node 0 q = Inr h1"
    unfolding h1_def using x(1) xn by (rule remove_unlink_eq)
  have "remove_down h t node (Suc 0) cur = Some (Inr h1)"
    using c scan unl by (simp add: load_Some)
  moreover have "same_nodes h h1" by (simp add: h1_def same_nodes_def upd_simps)
  moreover have "prv h1 = prv h" by (rule ext) (simp add: h1_def upd_simps)
  moreover have "\<forall>K a. nxt h1 K a =
      (if K \<le> 0 \<and> a = q \<and> nxt h K q = Some node then nxt h K node else nxt h K a)"
    using x(1) nxt_Some_live[OF x(1)] by (auto simp: h1_def upd_simps)
  ultimately show ?case by (simp add: q_def)
next
  case (Suc l)
  define q where "q = scan_pos (below h w) (hp # C (Suc l)) cur"
  from Suc.prems(6) obtain d where d: "h node = Some d" "m_value d = w"
    by (auto simp: val_def)
  have l0: "lvl h hp t (Suc l) (C (Suc l))" using Suc.prems(1) by simp
  have pth: "path h (Suc l) hp (C (Suc l)) t" using l0 by (simp add: lvl_def)
  from path_next_in[OF pth Suc.prems(3)] obtain y where "nxt h (Suc l) cur = Some y" by blast
  from nxt_Some_live[OF this] obtain c where c: "h cur = Some c" by auto
  have cl: "Suc l \<le> m_level c"
    using Suc.prems(3,5) l0 c by (auto simp: lvl_def lev_def)
  have scan: "remove_scan h t node (Suc l) cur = Some (Inr q)"
    unfolding q_def d(2)[symmetric] using l0 Suc.prems(3) d(1) by (rule remove_scan_lvl)
  have qin: "q \<in> set (hp # C (Suc l))" unfolding q_def using Suc.prems(3) by (rule scan_pos_in)
  have qn: "q \<noteq> node"
    using scan_pos_cases[of "below h w" "hp # C (Suc l)" cur] Suc.prems(4)
      below_irrefl[OF Suc.prems(6)] unfolding q_def by auto
  from path_next_in[OF pth qin] obtain x where
    x: "nxt h (Suc l) q = Some x" "x \<in> set (C (Suc l) @ [t])"
    by blast
  have xn: "x = node \<Longrightarrow> h node \<noteq> None \<and> Suc l < len h node"
    using x(2) l0 Suc.prems(7)[of "Suc l"] Suc.prems(8) d(1) by (auto simp: lvl_def)
  define h1 where "h1 = (if x = node then upd_next h q (Suc l) (nxt h (Suc l) node) else h)"
  have unl: "remove_unlink h node (Suc l) q = Inr h1"
    unfolding h1_def using x(1) xn by (rule remove_unlink_eq)
  have same1: "same_nodes h h1" by (simp add: h1_def same_nodes_def upd_simps)
  have prv1: "prv h1 = prv h" by (rule ext) (simp add: h1_def upd_simps)
  have nxt1: "\<And>K a. nxt h1 K a =
      (if K = Suc l \<and> a = q \<and> x = node then nxt h K node else nxt h K a)"
    using nxt_Some_live[OF x(1)] by (auto simp: h1_def upd_simps)
  have below1: "below h1 w = below h w" using same1 by (rule same_nodes_below)
  have lvl1: "\<And>K. K \<le> l \<Longrightarrow> lvl h1 hp t K (C K)"
  proof -
    fix K assume K: "K \<le> l"
    show "lvl h1 hp t K (C K)"
    proof (rule lvl_frame)
      show "lvl h hp t K (C K)" using Suc.prems(1) K by simp
      show "\<And>x. x \<in> set (hp # C K) \<Longrightarrow> nxt h1 K x = nxt h K x"
        using K by (simp add: nxt1)
      show "\<And>x. x \<in> set (C K) \<Longrightarrow> h1 x \<noteq> None \<and> lev h1 x = lev h x"
        using same1 Suc.prems(1)[of K] K by (auto simp: same_nodes_def lvl_def)
    qed
  qed
  have nest1: "\<And>K. K < l \<Longrightarrow> set (C (Suc K)) \<subseteq> set (C K)" using Suc.prems(2) by simp
  have qin': "q \<in> set (hp # C l)" using qin Suc.prems(2)[of l] by auto
  have lev1: "l \<le> lev h1 hp" using same1 Suc.prems(5) by (simp add: same_nodes_def)
  have val1: "val h1 node = Some w" using same1 Suc.prems(6) by (simp add: same_nodes_def)
  have len1: "\<And>K. K \<le> l \<Longrightarrow> node \<in> set (C K) \<Longrightarrow> K < len h1 node"
    using same1 Suc.prems(7) by (simp add: same_nodes_def)
  from Suc.IH[of h1 q, OF lvl1 nest1 qin' qn lev1 val1 len1 Suc.prems(8)]
  obtain h' where h': "remove_down h1 t node (Suc l) q = Some (Inr h')"
      "same_nodes h1 h'" "prv h' = prv h1"
      "\<And>K a. nxt h' K a =
         (if K \<le> l \<and> a = pos (below h w) hp C l q K \<and>
             nxt h1 K (pos (below h w) hp C l q K) = Some node
          then nxt h1 K node else nxt h1 K a)"
    unfolding below1 by blast
  have "remove_down h t node (Suc (Suc l)) cur = Some (Inr h')"
    using c cl scan unl h'(1) by (simp add: load_Some)
  moreover have "same_nodes h h'" using same1 h'(2) by (rule same_nodes_trans)
  moreover have "prv h' = prv h" using h'(3) prv1 by simp
  moreover have "\<forall>K a. nxt h' K a =
      (if K \<le> Suc l \<and> a = pos (below h w) hp C (Suc l) cur K \<and>
          nxt h K (pos (below h w) hp C (Suc l) cur K) = Some node
       then nxt h K node else nxt h K a)"
  proof (intro allI)
    fix K a
    consider "K \<le> l" | "K = Suc l" | "Suc l < K" by linarith
    then show "nxt h' K a =
      (if K \<le> Suc l \<and> a = pos (below h w) hp C (Suc l) cur K \<and>
          nxt h K (pos (below h w) hp C (Suc l) cur K) = Some node
       then nxt h K node else nxt h K a)"
    proof cases
      case 1
      then show ?thesis by (simp add: h'(4) nxt1 q_def)
    next
      case 2
      then show ?thesis using x(1) by (auto simp: h'(4) nxt1 q_def)
    next
      case 3
      then show ?thesis by (simp add: h'(4) nxt1)
    qed
  qed
  ultimately show ?case by blast
qed

subsection \<open>The effect of \<open>remove\<close>\<close>

lemma remove_sl_effect:
  fixes s :: "'a::linorder sl_impl" and C :: "nat \<Rightarrow> addr list" and node :: addr and w :: 'a
  assumes rep: "sl_rep s C" and node: "node \<in> set (C 0)" and w: "val (heap s) node = Some w"
  defines "p \<equiv> (\<lambda>K. last (m_head s # takeWhile (below (heap s) w) (C K)))"
  shows "\<exists>h'. remove_sl s (Some node) = Some (Inr (s\<lparr>heap := h', m_size := m_size s - 1\<rparr>)) \<and>
     (\<forall>a. (h' a = None) = (a = node \<or> heap s a = None)) \<and>
     (\<forall>a. a \<noteq> node \<longrightarrow> val h' a = val (heap s) a \<and> lev h' a = lev (heap s) a \<and>
          len h' a = len (heap s) a) \<and>
     (\<forall>K a. a \<noteq> node \<longrightarrow> nxt h' K a =
        (if K \<le> max_levels \<and> a = p K \<and> nxt (heap s) K (p K) = Some node
         then nxt (heap s) K node else nxt (heap s) K a)) \<and>
     (\<forall>a. a \<noteq> node \<longrightarrow> prv h' a =
        (if Some a = nxt (heap s) 0 node then prv (heap s) node else prv (heap s) a))"
proof -
  let ?h = "heap s" and ?hp = "m_head s" and ?t = "m_tail s"
  have hd: "?hp \<noteq> ?t" "lev ?h ?hp = max_levels" "len ?h ?hp = max_levels + 1"
      "m_levels s = max_levels"
    using sl_rep_head[OF rep] by simp_all
  from w obtain d where d: "?h node = Some d" "m_value d = w" by (auto simp: val_def)
  have dist0: "distinct (?hp # C 0 @ [?t])" using sl_rep_distinct[OF rep, of 0] by simp
  have nh: "node \<noteq> ?hp" "node \<noteq> ?t" using dist0 node by auto
  have pth0: "path ?h 0 ?hp (C 0) ?t" using sl_rep_lvl[OF rep, of 0] by (simp add: lvl_def)
  from path_next_in[OF pth0, of node] node obtain succ where
    succ: "nxt ?h 0 node = Some succ" "succ \<in> set (C 0 @ [?t])" by auto
  have succ_live: "?h succ \<noteq> None" using succ(2) sl_rep_live[OF rep, of succ] by auto
  have len0: "0 < len ?h node" using nxt_Some_live[OF succ(1)] by simp
  define h1 where "h1 = upd_prev ?h succ (m_prev d)"
  have same1: "same_nodes ?h h1" unfolding h1_def by (rule same_nodes_upd_prev)
  have nxt1: "\<And>K a. nxt h1 K a = nxt ?h K a" by (simp add: h1_def upd_simps)
  have lvl1: "\<And>K. K \<le> max_levels \<Longrightarrow> lvl h1 ?hp ?t K (C K)"
  proof -
    fix K assume K: "K \<le> max_levels"
    have old: "lvl ?h ?hp ?t K (C K)" using rep K by (rule sl_rep_lvl)
    show "lvl h1 ?hp ?t K (C K)"
    proof (rule lvl_frame[OF old])
      show "\<And>x. x \<in> set (?hp # C K) \<Longrightarrow> nxt h1 K x = nxt ?h K x" by (simp add: nxt1)
      show "\<And>x. x \<in> set (C K) \<Longrightarrow> h1 x \<noteq> None \<and> lev h1 x = lev ?h x"
        using old same1 by (auto simp: same_nodes_def lvl_def)
    qed
  qed
  have nest: "\<And>K. K < max_levels \<Longrightarrow> set (C (Suc K)) \<subseteq> set (C K)"
    using sl_rep_nested[OF rep] by simp
  have lev1: "max_levels \<le> lev h1 ?hp" using same1 hd(2) by (simp add: same_nodes_def)
  have val1: "val h1 node = Some w" using same1 w by (simp add: same_nodes_def)
  have len1: "\<And>K. K \<le> max_levels \<Longrightarrow> node \<in> set (C K) \<Longrightarrow> K < len h1 node"
  proof -
    fix K assume K: "K \<le> max_levels" and n: "node \<in> set (C K)"
    have "path ?h K ?hp (C K) ?t" using sl_rep_lvl[OF rep K] by (simp add: lvl_def)
    from path_next_in[OF this, of node] n obtain y where "nxt ?h K node = Some y" by auto
    from nxt_Some_live[OF this] show "K < len h1 node"
      using same1 by (simp add: same_nodes_def)
  qed
  have below1: "below h1 w = below ?h w" using same1 by (rule same_nodes_below)
  have pos_p: "\<And>K. K \<le> max_levels \<Longrightarrow> pos (below ?h w) ?hp C max_levels ?hp K = p K"
    unfolding p_def using rep by (rule sl_rep_pos_head)
  have hin: "?hp \<in> set (?hp # C max_levels)" by simp
  from remove_down_effect[of max_levels h1 ?hp ?t C ?hp node w,
      OF lvl1 nest hin nh(1)[symmetric] lev1 val1 len1 nh(2)]
  obtain h2 where h2: "remove_down h1 ?t node (Suc max_levels) ?hp = Some (Inr h2)"
      "same_nodes h1 h2" "prv h2 = prv h1"
      "\<And>K a. nxt h2 K a =
         (if K \<le> max_levels \<and> a = pos (below ?h w) ?hp C max_levels ?hp K \<and>
             nxt h1 K (pos (below ?h w) ?hp C max_levels ?hp K) = Some node
          then nxt h1 K node else nxt h1 K a)"
    unfolding below1 by blast
  have same2: "same_nodes ?h h2" using same1 h2(2) by (rule same_nodes_trans)
  define h' where "h' = h2(node := None)"
  have run: "remove_sl s (Some node) = Some (Inr (s\<lparr>heap := h', m_size := m_size s - 1\<rparr>))"
    using d(1) len0 succ(1) succ_live nh h2(1) hd(4)
    by (simp add: remove_sl_def load_Some next_at_nxt[where h="?h" and a=node]
        store_prev_upd h1_def[symmetric] h'_def[symmetric])
  have "\<forall>a. (h' a = None) = (a = node \<or> ?h a = None)"
    using same2 by (simp add: h'_def same_nodes_def)
  moreover have "\<forall>a. a \<noteq> node \<longrightarrow> val h' a = val ?h a \<and> lev h' a = lev ?h a \<and>
          len h' a = len ?h a"
    using same2 by (simp add: h'_def same_nodes_def free_simps)
  moreover have "\<forall>K a. a \<noteq> node \<longrightarrow> nxt h' K a =
        (if K \<le> max_levels \<and> a = p K \<and> nxt ?h K (p K) = Some node
         then nxt ?h K node else nxt ?h K a)"
  proof (intro allI impI)
    fix K a assume a: "a \<noteq> node"
    show "nxt h' K a = (if K \<le> max_levels \<and> a = p K \<and> nxt ?h K (p K) = Some node
         then nxt ?h K node else nxt ?h K a)"
    proof (cases "K \<le> max_levels")
      case True
      then show ?thesis using a by (simp add: h'_def free_simps h2(4) nxt1 pos_p)
    next
      case False
      then show ?thesis using a by (simp add: h'_def free_simps h2(4) nxt1)
    qed
  qed
  moreover have "\<forall>a. a \<noteq> node \<longrightarrow> prv h' a =
        (if Some a = nxt ?h 0 node then prv ?h node else prv ?h a)"
  proof (intro allI impI)
    fix a assume a: "a \<noteq> node"
    have pn: "prv ?h node = m_prev d" using d(1) by (simp add: prv_def)
    have "prv h' a = prv h1 a" using a by (simp add: h'_def free_simps h2(3))
    also have "\<dots> = (if a = succ then m_prev d else prv ?h a)"
      using succ_live by (simp add: h1_def upd_simps)
    finally show "prv h' a = (if Some a = nxt ?h 0 node then prv ?h node else prv ?h a)"
      using succ(1) pn by auto
  qed
  ultimately show ?thesis using run by blast
qed

subsection \<open>\<open>insert\<close> followed by \<open>remove\<close>\<close>

lemma back_consistent:
  "path h 0 a xs b \<Longrightarrow> back_path h a xs b \<Longrightarrow> x \<in> set (a # xs) \<Longrightarrow> nxt h 0 x = Some y
     \<Longrightarrow> prv h y = Some x"
  by (induction xs arbitrary: a) auto

lemma takeWhile_ins_chain: "\<not> P n \<Longrightarrow> takeWhile P (ins_chain P n xs) = takeWhile P xs"
proof -
  assume n: "\<not> P n"
  have "\<And>x. x \<in> set (takeWhile P xs) \<Longrightarrow> P x" using set_takeWhileD[of _ P xs] by blast
  then have "takeWhile P (takeWhile P xs @ n # dropWhile P xs) =
      takeWhile P xs @ takeWhile P (n # dropWhile P xs)"
    by (rule takeWhile_append2)
  with n show ?thesis by (simp add: ins_chain_def)
qed

lemma insert_sl_full:
  fixes s :: "'a::linorder sl_impl" and rnd :: "nat \<Rightarrow> nat" and v :: 'a
    and C :: "nat \<Rightarrow> addr list"
  assumes rep: "sl_rep s C"
  defines "nl \<equiv> random_level rnd"
  defines "P \<equiv> below (heap s) v"
  defines "C' \<equiv> (\<lambda>K. if K \<le> nl then ins_chain P (brk s) (C K) else C K)"
  defines "p \<equiv> (\<lambda>K. last (m_head s # takeWhile P (C K)))"
  shows "\<exists>h'. insert_sl s v rnd None =
           Some (Inr (s\<lparr>heap := h', brk := Suc (brk s), m_size := m_size s + 1\<rparr>, brk s)) \<and>
         sl_rep (s\<lparr>heap := h', brk := Suc (brk s), m_size := m_size s + 1\<rparr>) C' \<and>
         (\<forall>a. (h' a = None) = (a \<noteq> brk s \<and> heap s a = None)) \<and>
         (\<forall>a. val h' a = (if a = brk s then Some v else val (heap s) a)) \<and>
         (\<forall>a. lev h' a = (if a = brk s then nl else lev (heap s) a)) \<and>
         (\<forall>a. len h' a = (if a = brk s then nl + 1 else len (heap s) a)) \<and>
         (\<forall>K a. nxt h' K a =
            (if K \<le> max_levels \<and> K \<le> nl \<and> a = p K then Some (brk s)
             else if K \<le> max_levels \<and> K \<le> nl \<and> a = brk s then nxt (heap s) K (p K)
             else if a = brk s then None else nxt (heap s) K a)) \<and>
         (\<forall>a. prv h' a =
            (if Some a = nxt (heap s) 0 (p 0) then Some (brk s)
             else if a = brk s then Some (p 0) else prv (heap s) a))"
proof -
  let ?h = "heap s" and ?hp = "m_head s" and ?n = "brk s"
  have hd2: "lev ?h ?hp = max_levels" using sl_rep_head[OF rep] by simp
  have pos_p: "\<And>K. K \<le> max_levels \<Longrightarrow> pos P ?hp C max_levels ?hp K = p K"
    unfolding P_def p_def using rep by (rule sl_rep_pos_head)
  from insert_sl_rep[OF rep, of v rnd]
  obtain h1 where h1:
      "insert_sl s v rnd None =
           Some (Inr (s\<lparr>heap := h1, brk := Suc ?n, m_size := m_size s + 1\<rparr>, ?n))"
      "sl_rep (s\<lparr>heap := h1, brk := Suc ?n, m_size := m_size s + 1\<rparr>) C'"
    unfolding nl_def[symmetric] P_def[symmetric] C'_def[symmetric] by blast
  have st1: "m_head s = (case None :: ptr of None \<Rightarrow> m_head s | Some a \<Rightarrow> a)" by simp
  have st2: "m_head s \<in> set (m_head s # C 0)" by simp
  note E = insert_sl_effect[OF rep st1 st2, where rnd=rnd and v=v,
      unfolded hd2 nl_def[symmetric] P_def[symmetric]]
  from E obtain h' where eff:
      "insert_sl s v rnd None =
           Some (Inr (s\<lparr>heap := h', brk := Suc ?n, m_size := m_size s + 1\<rparr>, ?n))"
      "\<And>a. (h' a = None) = (a \<noteq> ?n \<and> ?h a = None)"
      "\<And>a. val h' a = (if a = ?n then Some v else val ?h a)"
      "\<And>a. lev h' a = (if a = ?n then nl else lev ?h a)"
      "\<And>a. len h' a = (if a = ?n then nl + 1 else len ?h a)"
      "\<And>K a. nxt h' K a =
            (if K \<le> max_levels \<and> K \<le> nl \<and> a = pos P ?hp C max_levels ?hp K then Some ?n
             else if K \<le> max_levels \<and> K \<le> nl \<and> a = ?n
                  then nxt ?h K (pos P ?hp C max_levels ?hp K)
             else if a = ?n then None else nxt ?h K a)"
      "\<And>a. prv h' a =
            (if Some a = nxt ?h 0 (pos P ?hp C max_levels ?hp 0) then Some ?n
             else if a = ?n then Some (pos P ?hp C max_levels ?hp 0) else prv ?h a)"
    by blast
  have "heap (s\<lparr>heap := h1, brk := Suc ?n, m_size := m_size s + 1\<rparr>) =
        heap (s\<lparr>heap := h', brk := Suc ?n, m_size := m_size s + 1\<rparr>)"
    using h1(1) eff(1) by simp
  then have eq: "h1 = h'" by simp
  have nxt': "\<forall>K a. nxt h' K a =
            (if K \<le> max_levels \<and> K \<le> nl \<and> a = p K then Some ?n
             else if K \<le> max_levels \<and> K \<le> nl \<and> a = ?n then nxt ?h K (p K)
             else if a = ?n then None else nxt ?h K a)"
  proof (intro allI)
    fix K a
    show "nxt h' K a =
            (if K \<le> max_levels \<and> K \<le> nl \<and> a = p K then Some ?n
             else if K \<le> max_levels \<and> K \<le> nl \<and> a = ?n then nxt ?h K (p K)
             else if a = ?n then None else nxt ?h K a)"
      by (cases "K \<le> max_levels") (simp_all add: eff(6) pos_p)
  qed
  have prv': "\<forall>a. prv h' a =
            (if Some a = nxt ?h 0 (p 0) then Some ?n
             else if a = ?n then Some (p 0) else prv ?h a)"
    by (simp add: eff(7) pos_p)
  show ?thesis
    using eff(1) h1(2)[unfolded eq] eff(2) eff(3) eff(4) eff(5) nxt' prv' by blast
qed

lemma insert_remove_state:
  fixes s :: "'a::linorder sl_impl" and rnd :: "nat \<Rightarrow> nat" and v :: 'a
    and C :: "nat \<Rightarrow> addr list"
  assumes rep: "sl_rep s C"
  shows "\<exists>s1. insert_sl s v rnd None = Some (Inr (s1, brk s)) \<and>
           remove_sl s1 (Some (brk s)) = Some (Inr (s\<lparr>brk := Suc (brk s)\<rparr>))"
proof -
  let ?h = "heap s" and ?hp = "m_head s" and ?t = "m_tail s" and ?n = "brk s"
  define nl where "nl = random_level rnd"
  define P where "P = below ?h v"
  define C' where "C' = (\<lambda>K. if K \<le> nl then ins_chain P ?n (C K) else C K)"
  define p where "p = (\<lambda>K. last (?hp # takeWhile P (C K)))"
  have p_eq: "\<And>K. last (?hp # takeWhile P (C K)) = p K" by (simp add: p_def)
  note I = insert_sl_full[OF rep, of v rnd,
      unfolded nl_def[symmetric] P_def[symmetric] C'_def[symmetric] p_eq]
  from I obtain h' where ins:
      "insert_sl s v rnd None =
           Some (Inr (s\<lparr>heap := h', brk := Suc ?n, m_size := m_size s + 1\<rparr>, ?n))"
      "sl_rep (s\<lparr>heap := h', brk := Suc ?n, m_size := m_size s + 1\<rparr>) C'"
      "\<And>a. (h' a = None) = (a \<noteq> ?n \<and> ?h a = None)"
      "\<And>a. val h' a = (if a = ?n then Some v else val ?h a)"
      "\<And>a. lev h' a = (if a = ?n then nl else lev ?h a)"
      "\<And>a. len h' a = (if a = ?n then nl + 1 else len ?h a)"
      "\<And>K a. nxt h' K a =
            (if K \<le> max_levels \<and> K \<le> nl \<and> a = p K then Some ?n
             else if K \<le> max_levels \<and> K \<le> nl \<and> a = ?n then nxt ?h K (p K)
             else if a = ?n then None else nxt ?h K a)"
      "\<And>a. prv h' a =
            (if Some a = nxt ?h 0 (p 0) then Some ?n
             else if a = ?n then Some (p 0) else prv ?h a)"
    by blast
  let ?s1 = "s\<lparr>heap := h', brk := Suc ?n, m_size := m_size s + 1\<rparr>"
  have fresh: "?h ?n = None" using rep by (simp add: sl_rep_fresh)
  have belowP: "below h' v = P"
    unfolding P_def
  proof (rule ext)
    fix a
    have "val ?h ?n = None" using fresh by (simp add: val_def)
    then show "below h' v a = below ?h v a"
      by (cases "a = ?n") (simp_all add: below_val ins(4))
  qed
  have notP: "\<not> P ?n" using fresh by (simp add: P_def below_def)
  have tk: "\<And>K. takeWhile P (C' K) = takeWhile P (C K)"
    using notP by (simp add: C'_def takeWhile_ins_chain)
  have n_in: "?n \<in> set (C' 0)" by (simp add: C'_def set_ins_chain)
  have vn: "val (heap ?s1) ?n = Some v" by (simp add: ins(4))
  have sel: "heap ?s1 = h'" "m_head ?s1 = ?hp" "m_tail ?s1 = ?t" by simp_all
  note R = remove_sl_effect[OF ins(2) n_in vn, unfolded sel belowP tk p_eq]
  from R obtain h2 where rem:
      "remove_sl ?s1 (Some ?n) = Some (Inr (?s1\<lparr>heap := h2, m_size := m_size ?s1 - 1\<rparr>))"
      "\<And>a. (h2 a = None) = (a = ?n \<or> h' a = None)"
      "\<And>a. a \<noteq> ?n \<Longrightarrow> val h2 a = val h' a \<and> lev h2 a = lev h' a \<and> len h2 a = len h' a"
      "\<And>K a. a \<noteq> ?n \<Longrightarrow> nxt h2 K a =
        (if K \<le> max_levels \<and> a = p K \<and> nxt h' K (p K) = Some ?n
         then nxt h' K ?n else nxt h' K a)"
      "\<And>a. a \<noteq> ?n \<Longrightarrow> prv h2 a =
        (if Some a = nxt h' 0 ?n then prv h' ?n else prv h' a)"
    by blast
  have pin: "\<And>K. p K \<in> set (?hp # C K)"
  proof -
    fix K
    have "p K \<in> set (?hp # takeWhile P (C K))" unfolding p_def by (rule last_in_set) simp
    then show "p K \<in> set (?hp # C K)" using set_takeWhileD[of "p K" P "C K"] by auto
  qed
  have notin: "\<And>K. K \<le> max_levels \<Longrightarrow> ?n \<notin> set (?hp # C K @ [?t])"
  proof -
    fix K assume "K \<le> max_levels"
    then have "?n \<notin> set (?hp # C K)" using rep by (intro sl_rep_fresh_notin)
    moreover have "?n \<noteq> ?t" using fresh sl_rep_tail[OF rep] by auto
    ultimately show "?n \<notin> set (?hp # C K @ [?t])" by simp
  qed
  have pn: "\<And>K. K \<le> max_levels \<Longrightarrow> p K \<noteq> ?n"
  proof -
    fix K assume "K \<le> max_levels"
    from notin[OF this] pin[of K] show "p K \<noteq> ?n" by auto
  qed
  have nx_old: "\<And>K. K \<le> max_levels \<Longrightarrow> nxt ?h K (p K) \<noteq> Some ?n"
  proof -
    fix K assume K: "K \<le> max_levels"
    have "path ?h K ?hp (C K) ?t" using sl_rep_lvl[OF rep K] by (simp add: lvl_def)
    from path_next_in[OF this pin[of K]] obtain y where
      "nxt ?h K (p K) = Some y" "y \<in> set (C K @ [?t])" by blast
    then show "nxt ?h K (p K) \<noteq> Some ?n" using notin[OF K] by auto
  qed
  have "h2 = ?h"
  proof (rule heap_eqI)
    fix a
    show "(h2 a = None) = (?h a = None)" using fresh by (auto simp: rem(2) ins(3))
    show "val h2 a = val ?h a"
    proof (cases "a = ?n")
      case True
      then show ?thesis using fresh rem(2)[of a] by (simp add: val_def)
    next
      case False
      then show ?thesis using rem(3)[of a] by (simp add: ins(4))
    qed
    show "lev h2 a = lev ?h a"
    proof (cases "a = ?n")
      case True
      then show ?thesis using fresh rem(2)[of a] by (simp add: lev_def)
    next
      case False
      then show ?thesis using rem(3)[of a] by (simp add: ins(5))
    qed
    show "len h2 a = len ?h a"
    proof (cases "a = ?n")
      case True
      then show ?thesis using fresh rem(2)[of a] by (simp add: len_def)
    next
      case False
      then show ?thesis using rem(3)[of a] by (simp add: ins(6))
    qed
    show "prv h2 a = prv ?h a"
    proof (cases "a = ?n")
      case True
      then show ?thesis using fresh rem(2)[of a] by (simp add: prv_def)
    next
      case False
      have p0: "p 0 \<noteq> ?n" by (rule pn) simp
      have n0: "nxt h' 0 ?n = nxt ?h 0 (p 0)" using p0 by (simp add: ins(7))
      have pr: "prv h' ?n = Some (p 0)" using nx_old[of 0] by (auto simp: ins(8))
      show ?thesis
      proof (cases "Some a = nxt ?h 0 (p 0)")
        case True
        have "path ?h 0 ?hp (C 0) ?t" using sl_rep_lvl[OF rep, of 0] by (simp add: lvl_def)
        from back_consistent[OF this sl_rep_back[OF rep] pin[of 0] True[symmetric]]
        have "prv ?h a = Some (p 0)" .
        with True False show ?thesis by (simp add: rem(5) n0 pr)
      next
        case F: False
        with False show ?thesis by (simp add: rem(5) n0 ins(8))
      qed
    qed
    fix K
    show "nxt h2 K a = nxt ?h K a"
    proof (cases "a = ?n")
      case True
      then show ?thesis using fresh rem(2)[of a] by (simp add: nxt_def)
    next
      case False
      show ?thesis
      proof (cases "K \<le> max_levels")
        case True
        then show ?thesis using False pn[OF True] nx_old[OF True]
          by (auto simp: rem(4) ins(7))
      next
        case F: False
        then show ?thesis using False by (simp add: rem(4) ins(7))
      qed
    qed
  qed
  then have "remove_sl ?s1 (Some ?n) = Some (Inr (s\<lparr>brk := Suc ?n\<rparr>))"
    using rem(1) by simp
  with ins(1) show ?thesis by blast
qed

subsection \<open>The constructor\<close>

lemma levels_list: "[0 ..< max_levels + 1] = [0, 1, 2, 3, 4, 5]"
  unfolding max_levels_def by code_simp

lemma sl_init_eq:
  "sl_init vmin vmax = Inr \<lparr>heap = (Map.empty
       (0 \<mapsto> \<lparr>m_value = vmin, m_level = 5, m_prev = None, m_next = replicate 6 (Some 1)\<rparr>))
       (1 \<mapsto> \<lparr>m_value = vmax, m_level = 5, m_prev = Some 0, m_next = replicate 6 None\<rparr>),
     brk = 2, m_levels = 5, m_size = 0, m_head = 0, m_tail = 1\<rparr>"
  unfolding sl_init_def Let_def levels_list
  by (simp add: max_levels_def new_node_def store_next_def store_prev_def fun_upd_twist
      numeral_eq_Suc)

lemma sl_init_rep:
  "\<exists>s. sl_init vmin vmax = Inr s \<and> sl_rep s (\<lambda>K. []) \<and> m_head s = 0 \<and> m_tail s = 1 \<and>
     brk s = 2 \<and> val (heap s) 0 = Some vmin \<and> val (heap s) 1 = Some vmax"
proof -
  let ?h = "(Map.empty
       (0 \<mapsto> \<lparr>m_value = vmin, m_level = 5, m_prev = None, m_next = replicate 6 (Some (1::nat))\<rparr>))
       (1 \<mapsto> \<lparr>m_value = vmax, m_level = 5, m_prev = Some 0, m_next = replicate 6 None\<rparr>)"
  let ?s = "\<lparr>heap = ?h, brk = 2, m_levels = 5, m_size = 0, m_head = 0, m_tail = 1\<rparr>"
  have "sl_rep ?s (\<lambda>K. [])"
  proof (rule sl_repI[where h="?h" and hp=0 and t=1 and b=2])
    show "\<And>L. L \<le> max_levels \<Longrightarrow> lvl ?h 0 1 L []"
      by (simp add: lvl_def nxt_def max_levels_def)
  qed (auto simp: max_levels_def lev_def len_def prv_def)
  then show ?thesis
    unfolding sl_init_eq by (intro exI[of _ ?s]) (simp add: val_def)
qed

subsection \<open>Traversals\<close>

lemma walk_next_path:
  "path h L a xs t \<Longrightarrow> t \<notin> set xs \<Longrightarrow>
     walk_next h t L acc (nxt h L a) = Some (Inr (rev acc @ xs))"
proof (induction xs arbitrary: a acc)
  case Nil
  then show ?case by (subst walk_next.simps) simp
next
  case (Cons x xs)
  from Cons.prems have ax: "nxt h L a = Some x" and px: "path h L x xs t" and xt: "x \<noteq> t"
    by auto
  from path_next_in[OF px, of x] obtain y where y: "nxt h L x = Some y" by auto
  from nxt_Some_live[OF y] obtain n where n: "h x = Some n" and l: "L < len h x" by auto
  have "walk_next h t L (x # acc) (nxt h L x) = Some (Inr (rev (x # acc) @ xs))"
    using px Cons.prems(2) by (intro Cons.IH) auto
  then show ?case
    using ax xt n l
    by (subst walk_next.simps) (simp add: load_Some next_at_nxt[where h=h and a=x])
qed

lemma level_nodes_path:
  assumes "path (heap s) L (m_head s) xs (m_tail s)" "m_tail s \<notin> set xs"
  shows "level_nodes s L = Some (Inr xs)"
proof -
  from path_next_in[OF assms(1), of "m_head s"] obtain y where
    y: "nxt (heap s) L (m_head s) = Some y" by auto
  from nxt_Some_live[OF y] obtain n where n: "heap s (m_head s) = Some n"
    and l: "L < len (heap s) (m_head s)" by auto
  show ?thesis
    using n l walk_next_path[OF assms, of "[]"]
    by (simp add: level_nodes_def load_Some next_at_nxt[where h="heap s" and a="m_head s"])
qed

lemma sl_rep_level_nodes:
  "sl_rep s C \<Longrightarrow> L \<le> max_levels \<Longrightarrow> level_nodes s L = Some (Inr (C L))"
  using sl_rep_lvl[of s C L] by (intro level_nodes_path) (simp_all add: lvl_def)

lemma walk_prev_path:
  "back_path h a xs b \<Longrightarrow> a \<notin> set xs \<Longrightarrow> (\<And>x. x \<in> set xs \<Longrightarrow> h x \<noteq> None) \<Longrightarrow>
     walk_prev h a acc (prv h b) = Some (Inr (rev acc @ rev xs))"
proof (induction xs arbitrary: b acc rule: rev_induct)
  case Nil
  then show ?case by (subst walk_prev.simps) simp
next
  case (snoc y ys)
  from snoc.prems(1) have pb: "prv h b = Some y" and py: "back_path h a ys y"
    by (simp_all add: back_path_snoc)
  have ya: "y \<noteq> a" using snoc.prems(2) by auto
  from snoc.prems(3)[of y] obtain n where n: "h y = Some n" by auto
  have pn: "m_prev n = prv h y" using n by (simp add: prv_def)
  have "walk_prev h a (y # acc) (prv h y) = Some (Inr (rev (y # acc) @ rev ys))"
    using py snoc.prems(2,3) by (intro snoc.IH) auto
  then show ?case
    using pb ya n pn by (subst walk_prev.simps) (simp add: load_Some)
qed

lemma sl_rep_forward: "sl_rep s C \<Longrightarrow> forward_nodes s = Some (Inr (C 0))"
  unfolding forward_nodes_def by (rule sl_rep_level_nodes) simp_all

lemma sl_rep_backward:
  assumes "sl_rep s C"
  shows "backward_nodes s = Some (Inr (rev (C 0)))"
proof -
  have l: "lvl (heap s) (m_head s) (m_tail s) 0 (C 0)" using assms by (intro sl_rep_lvl) simp_all
  from sl_rep_tail[OF assms] obtain n where n: "heap s (m_tail s) = Some n" by auto
  have pn: "m_prev n = prv (heap s) (m_tail s)" using n by (simp add: prv_def)
  have "walk_prev (heap s) (m_head s) [] (prv (heap s) (m_tail s)) = Some (Inr (rev [] @ rev (C 0)))"
    using sl_rep_back[OF assms] l by (intro walk_prev_path) (auto simp: lvl_def)
  then show ?thesis using n pn by (simp add: backward_nodes_def back_sl_def load_Some)
qed

lemma sl_rep_stored: "sl_rep s C \<Longrightarrow> stored s a = (a \<in> set (C 0))"
  using sl_rep_live[of s C a] sl_rep_distinct[of s C 0] by (auto simp: stored_def)

subsection \<open>Programs of inserts\<close>

lemma sl_inv_init: "\<exists>s. sl_init vmin vmax = Inr s \<and> sl_inv s"
  using sl_init_rep[of vmin vmax] unfolding sl_inv_def by blast

lemma sl_inv_insert:
  assumes "sl_inv s"
  shows "\<exists>s'. insert_sl s v rnd None = Some (Inr (s', brk s)) \<and> sl_inv s'"
proof -
  from assms obtain C where "sl_rep s C" unfolding sl_inv_def by blast
  from insert_sl_rep[OF this, of v rnd] show ?thesis unfolding sl_inv_def by blast
qed

lemma steps_inserts:
  assumes "sl_rep s C" "C 1 = C 0" "\<And>a. a \<in> set (C 0) \<Longrightarrow> 1 \<le> lev (heap s) a"
  shows "\<exists>s' C'. steps s (inserts vs) = Some (Inr s') \<and> sl_rep s' C' \<and> C' 1 = C' 0 \<and>
           (\<forall>a\<in>set (C' 0). 1 \<le> lev (heap s') a)"
  using assms
proof (induction vs arbitrary: s C)
  case Nil
  then show ?case by (auto simp: inserts_def)
next
  case (Cons x vs)
  obtain v rnd where x: "x = (v, rnd)" by (cases x)
  define nl where "nl = random_level rnd"
  define C1 where "C1 = (\<lambda>K. if K \<le> nl then ins_chain (below (heap s) v) (brk s) (C K) else C K)"
  have nl: "1 \<le> nl" using random_level_bounds[of rnd] by (simp add: nl_def)
  from insert_sl_rep[OF Cons.prems(1), of v rnd]
  obtain h' where ins:
      "insert_sl s v rnd None =
         Some (Inr (s\<lparr>heap := h', brk := Suc (brk s), m_size := m_size s + 1\<rparr>, brk s))"
      "sl_rep (s\<lparr>heap := h', brk := Suc (brk s), m_size := m_size s + 1\<rparr>) C1"
      "\<And>a. lev h' a = (if a = brk s then nl else lev (heap s) a)"
    unfolding nl_def[symmetric] C1_def[symmetric] by blast
  let ?s1 = "s\<lparr>heap := h', brk := Suc (brk s), m_size := m_size s + 1\<rparr>"
  have c1: "C1 1 = C1 0" using nl Cons.prems(2) by (simp add: C1_def)
  have l1: "\<And>a. a \<in> set (C1 0) \<Longrightarrow> 1 \<le> lev (heap ?s1) a"
    using nl Cons.prems(3) by (auto simp: C1_def set_ins_chain ins(3))
  from Cons.IH[OF ins(2) c1 l1]
  obtain s' C' where "steps ?s1 (inserts vs) = Some (Inr s')" "sl_rep s' C'" "C' 1 = C' 0"
      "\<forall>a\<in>set (C' 0). 1 \<le> lev (heap s') a"
    by blast
  moreover have "steps s (inserts (x # vs)) = steps ?s1 (inserts vs)"
    using ins(1) by (simp add: inserts_def x)
  ultimately show ?case by auto
qed

lemma run_inserts:
  "\<exists>s C. run vmin vmax (inserts vs) = Some (Inr s) \<and> sl_rep s C \<and> C 1 = C 0 \<and>
         (\<forall>a\<in>set (C 0). 1 \<le> lev (heap s) a)"
proof -
  from sl_init_rep[of vmin vmax] obtain s0 where
    s0: "sl_init vmin vmax = Inr s0" "sl_rep s0 (\<lambda>K. [])" by blast
  from steps_inserts[OF s0(2), of vs] s0(1) show ?thesis by (simp add: run_def)
qed

lemma sl_inv_inserts: "\<exists>s. run vmin vmax (inserts vs) = Some (Inr s) \<and> sl_inv s"
  using run_inserts[of vmin vmax vs] unfolding sl_inv_def by blast

lemma filter_takeWhile_cut:
  "(\<And>x. x \<in> set (dropWhile P xs) \<Longrightarrow> \<not> P x) \<Longrightarrow>
     takeWhile P xs = filter P xs \<and> dropWhile P xs = filter (\<lambda>x. \<not> P x) xs"
proof (induction xs)
  case Nil
  then show ?case by simp
next
  case (Cons x xs)
  show ?case
  proof (cases "P x")
    case True
    have "takeWhile P xs = filter P xs \<and> dropWhile P xs = filter (\<lambda>x. \<not> P x) xs"
    proof (rule Cons.IH)
      fix y assume "y \<in> set (dropWhile P xs)"
      then have "y \<in> set (dropWhile P (x # xs))" using True by simp
      then show "\<not> P y" by (rule Cons.prems)
    qed
    with True show ?thesis by simp
  next
    case False
    have all: "\<forall>y\<in>set (x # xs). \<not> P y"
    proof
      fix y assume "y \<in> set (x # xs)"
      then have "y \<in> set (dropWhile P (x # xs))" using False by simp
      then show "\<not> P y" by (rule Cons.prems)
    qed
    then have "filter P (x # xs) = []" "filter (\<lambda>x. \<not> P x) (x # xs) = x # xs"
      by (simp_all add: filter_empty_conv filter_id_conv)
    with False show ?thesis by simp
  qed
qed

lemma sl_rep_ins_chain_filter:
  assumes "sl_rep s C" "L \<le> max_levels"
  shows "ins_chain (below (heap s) v) n (C L) =
         filter (below (heap s) v) (C L) @ n # filter (\<lambda>a. \<not> below (heap s) v a) (C L)"
proof -
  have "takeWhile (below (heap s) v) (C L) = filter (below (heap s) v) (C L) \<and>
        dropWhile (below (heap s) v) (C L) = filter (\<lambda>a. \<not> below (heap s) v a) (C L)"
  proof (rule filter_takeWhile_cut)
    fix x assume "x \<in> set (dropWhile (below (heap s) v) (C L))"
    with assms show "\<not> below (heap s) v x" by (rule sl_rep_cut)
  qed
  then show ?thesis by (simp add: ins_chain_def)
qed

section \<open>Insertion\<close>

text \<open>
  C4. In a well-formed engine an \<open>insert\<close> without a hint always returns: it is never
  rejected. Its handle is a fresh node, not stored before, that holds the value; every
  node stored before is still stored, and the engine is well formed again. On every
  level up to the new node's level the chain becomes: the old nodes with a smaller
  value, then the new node, then the old nodes whose value is not smaller (all nodes of
  equal value among them), each group in its old order; the chains above the node's
  level do not change. So the new node stands immediately in front of the nodes of equal
  value that were inserted before it.
\<close>

theorem insert_in_front_of_equal_values:
  fixes s :: "'a::linorder sl_impl"
  assumes "sl_inv s"
  shows "\<exists>s'. insert_sl s v rnd None = Some (Inr (s', brk s)) \<and> sl_inv s' \<and>
           \<not> stored s (brk s) \<and> stored s' (brk s) \<and> val (heap s') (brk s) = Some v \<and>
           (\<forall>a. stored s a \<longrightarrow> stored s' a) \<and>
           (\<forall>L\<le>max_levels. \<exists>xs. level_nodes s L = Some (Inr xs) \<and>
              level_nodes s' L = Some (Inr
                (if L \<le> lev (heap s') (brk s)
                 then filter (below (heap s) v) xs @ brk s #
                      filter (\<lambda>a. \<not> below (heap s) v a) xs
                 else xs)))"
proof -
  from assms obtain C where rep: "sl_rep s C" unfolding sl_inv_def by blast
  define nl where "nl = random_level rnd"
  define C' where "C' = (\<lambda>K. if K \<le> nl then ins_chain (below (heap s) v) (brk s) (C K) else C K)"
  from insert_sl_rep[OF rep, of v rnd]
  obtain h' where ins:
      "insert_sl s v rnd None =
         Some (Inr (s\<lparr>heap := h', brk := Suc (brk s), m_size := m_size s + 1\<rparr>, brk s))"
      "sl_rep (s\<lparr>heap := h', brk := Suc (brk s), m_size := m_size s + 1\<rparr>) C'"
      "\<And>a. val h' a = (if a = brk s then Some v else val (heap s) a)"
      "\<And>a. lev h' a = (if a = brk s then nl else lev (heap s) a)"
    unfolding nl_def[symmetric] C'_def[symmetric] by blast
  let ?s' = "s\<lparr>heap := h', brk := Suc (brk s), m_size := m_size s + 1\<rparr>"
  have inv': "sl_inv ?s'" using ins(2) unfolding sl_inv_def by blast
  have fresh: "\<not> stored s (brk s)" using sl_rep_fresh[OF rep, of "brk s"] by (simp add: stored_def)
  have st': "\<And>a. stored ?s' a = (a = brk s \<or> stored s a)"
    by (simp add: sl_rep_stored[OF ins(2)] sl_rep_stored[OF rep] C'_def set_ins_chain)
  have chains: "\<forall>L\<le>max_levels. \<exists>xs. level_nodes s L = Some (Inr xs) \<and>
              level_nodes ?s' L = Some (Inr
                (if L \<le> lev (heap ?s') (brk s)
                 then filter (below (heap s) v) xs @ brk s #
                      filter (\<lambda>a. \<not> below (heap s) v a) xs
                 else xs))"
  proof (intro allI impI)
    fix L assume L: "L \<le> max_levels"
    have "level_nodes s L = Some (Inr (C L))" using rep L by (rule sl_rep_level_nodes)
    moreover have "level_nodes ?s' L = Some (Inr (C' L))" using ins(2) L by (rule sl_rep_level_nodes)
    moreover have "C' L = (if L \<le> lev (heap ?s') (brk s)
                 then filter (below (heap s) v) (C L) @ brk s #
                      filter (\<lambda>a. \<not> below (heap s) v a) (C L)
                 else C L)"
      by (simp add: C'_def ins(4) sl_rep_ins_chain_filter[OF rep L])
    ultimately show "\<exists>xs. level_nodes s L = Some (Inr xs) \<and>
              level_nodes ?s' L = Some (Inr
                (if L \<le> lev (heap ?s') (brk s)
                 then filter (below (heap s) v) xs @ brk s #
                      filter (\<lambda>a. \<not> below (heap s) v a) xs
                 else xs))"
      by simp
  qed
  have "val (heap ?s') (brk s) = Some v" by (simp add: ins(3))
  with ins(1) inv' fresh st' chains show ?thesis by (intro exI[of _ ?s']) simp
qed

text \<open>
  The example of the specification: after \<open>insert(5)\<close>, \<open>insert(5)\<close>, which return the
  handles 2 and 3, a third \<open>insert(5)\<close> returns the handle 4, and the bottom chain is
  4, 3, 2: the reverse of the order of insertion.
\<close>

theorem insert_in_front_of_equal_values_witness:
  "\<exists>s s'. run int_min int_max (inserts [(5, \<lambda>i. 1), (5, \<lambda>i. 1)]) = Some (Inr s) \<and> sl_inv s \<and>
     forward_nodes s = Some (Inr [3, 2]) \<and>
     insert_sl s 5 (\<lambda>i. 1) None = Some (Inr (s', 4)) \<and> stored s' 4 \<and>
     forward_nodes s' = Some (Inr [4, 3, 2])"
proof -
  from sl_inv_inserts[of int_min int_max "[(5, \<lambda>i. 1), (5, \<lambda>i. 1)]"]
  obtain s where s: "run int_min int_max (inserts [(5, \<lambda>i. 1), (5, \<lambda>i. 1)]) = Some (Inr s)"
    and inv: "sl_inv s" by blast
  have "(case run int_min int_max (inserts [(5, \<lambda>i. 1), (5, \<lambda>i. 1)]) of
           Some (Inr s) \<Rightarrow> brk s = 4 \<and> level_nodes s 0 = Some (Inr [3, 2]) \<and>
             filter (below (heap s) 5) [3, 2] = [] \<and>
             filter (\<lambda>a. \<not> below (heap s) 5 a) [3, 2] = [3, 2]
         | _ \<Rightarrow> False)"
    by code_simp
  with s have ev: "brk s = 4" "level_nodes s 0 = Some (Inr [3, 2])"
      "filter (below (heap s) 5) [3, 2] = []"
      "filter (\<lambda>a. \<not> below (heap s) 5 a) [3, 2] = [3, 2]"
    by simp_all
  from insert_in_front_of_equal_values[OF inv, of 5 "\<lambda>i. 1"]
  obtain s' where s': "insert_sl s 5 (\<lambda>i. 1) None = Some (Inr (s', brk s))" "stored s' (brk s)"
    and ch: "\<forall>L\<le>max_levels. \<exists>xs. level_nodes s L = Some (Inr xs) \<and>
              level_nodes s' L = Some (Inr
                (if L \<le> lev (heap s') (brk s)
                 then filter (below (heap s) 5) xs @ brk s #
                      filter (\<lambda>a. \<not> below (heap s) 5 a) xs
                 else xs))"
    by blast
  from ch[rule_format, of 0] ev have "level_nodes s' 0 = Some (Inr [4, 3, 2])" by simp
  with s inv ev s' show ?thesis by (auto simp: forward_nodes_def)
qed

text \<open>
  With a hint the new node need not stand in front of the equal values. In the engine
  that holds 5 (handle 2), \<open>insert(5, hint)\<close> with that node as the hint starts its
  scans at the hint and links the new node (handle 3) behind it on both levels: the
  chains are 2, 3.
\<close>

theorem insert_with_equal_hint_goes_behind:
  "(case run int_min int_max (inserts [(5, \<lambda>i. 1)]) of
      Some (Inr s) \<Rightarrow> sl_inv s \<and> stored s 2 \<and> val (heap s) 2 = Some 5 \<and>
        (case insert_sl s 5 (\<lambda>i. 1) (Some 2) of
           Some (Inr (s1, a)) \<Rightarrow> a = 3 \<and> val (heap s1) 3 = Some 5 \<and>
             level_nodes s1 0 = Some (Inr [2, 3]) \<and> level_nodes s1 1 = Some (Inr [2, 3])
         | _ \<Rightarrow> False)
    | _ \<Rightarrow> False)"
proof -
  from sl_inv_inserts[of int_min int_max "[(5, \<lambda>i. 1)]"]
  obtain s where s: "run int_min int_max (inserts [(5, \<lambda>i. 1)]) = Some (Inr s)"
    and inv: "sl_inv s" by blast
  have "(case run int_min int_max (inserts [(5, \<lambda>i. 1)]) of
      Some (Inr s) \<Rightarrow> stored s 2 \<and> val (heap s) 2 = Some 5 \<and>
        (case insert_sl s 5 (\<lambda>i. 1) (Some 2) of
           Some (Inr (s1, a)) \<Rightarrow> a = 3 \<and> val (heap s1) 3 = Some 5 \<and>
             level_nodes s1 0 = Some (Inr [2, 3]) \<and> level_nodes s1 1 = Some (Inr [2, 3])
         | _ \<Rightarrow> False)
    | _ \<Rightarrow> False)"
    by code_simp
  with s inv show ?thesis by simp
qed

text \<open>
  C5. In a well-formed engine, \<open>insert(v)\<close> without a hint followed by \<open>remove\<close> of the
  handle it returned: both calls return, the size is back at its old value, and the heap
  is the old heap, so the bottom chain holds the same nodes in the same order as before
  the insert. The statement does not depend on which values are stored.
\<close>

theorem insert_then_remove_restores:
  fixes s :: "'a::linorder sl_impl"
  assumes "sl_inv s"
  shows "\<exists>s1 s2 xs. insert_sl s v rnd None = Some (Inr (s1, brk s)) \<and>
           size_sl s1 = size_sl s + 1 \<and>
           remove_sl s1 (Some (brk s)) = Some (Inr s2) \<and>
           size_sl s2 = size_sl s \<and> heap s2 = heap s \<and>
           forward_nodes s = Some (Inr xs) \<and> forward_nodes s2 = Some (Inr xs)"
proof -
  from assms obtain C where rep: "sl_rep s C" unfolding sl_inv_def by blast
  from insert_sl_rep[OF rep, of v rnd]
  obtain h' where ins:
      "insert_sl s v rnd None =
         Some (Inr (s\<lparr>heap := h', brk := Suc (brk s), m_size := m_size s + 1\<rparr>, brk s))"
    by blast
  from insert_remove_state[OF rep, of v rnd]
  obtain s1 where s1: "insert_sl s v rnd None = Some (Inr (s1, brk s))"
      "remove_sl s1 (Some (brk s)) = Some (Inr (s\<lparr>brk := Suc (brk s)\<rparr>))"
    by blast
  from ins s1(1) have "s1 = s\<lparr>heap := h', brk := Suc (brk s), m_size := m_size s + 1\<rparr>" by simp
  then have sz: "size_sl s1 = size_sl s + 1" by (simp add: size_sl_def)
  have fw: "forward_nodes s = Some (Inr (C 0))" using rep by (rule sl_rep_forward)
  have "forward_nodes (s\<lparr>brk := Suc (brk s)\<rparr>) = forward_nodes s"
    by (simp add: forward_nodes_def level_nodes_def split: sum.splits)
  with s1 sz fw show ?thesis
    by (intro exI[of _ s1] exI[of _ "s\<lparr>brk := Suc (brk s)\<rparr>"] exI[of _ "C 0"])
       (simp add: size_sl_def)
qed

text \<open>
  An engine that holds 5 and 7 (handles 2 and 3): \<open>insert(5)\<close> returns the handle 4,
  and after \<open>remove\<close> of that handle the size is 2 again and the bottom chain is 2, 3.
\<close>

theorem insert_then_remove_restores_witness:
  "\<exists>s s1 s2. run int_min int_max (inserts [(5, \<lambda>i. 1), (7, \<lambda>i. 0)]) = Some (Inr s) \<and> sl_inv s \<and>
     insert_sl s 5 (\<lambda>i. 1) None = Some (Inr (s1, 4)) \<and> size_sl s1 = 3 \<and>
     remove_sl s1 (Some 4) = Some (Inr s2) \<and> size_sl s2 = 2 \<and>
     forward_nodes s2 = Some (Inr [2, 3])"
proof -
  from sl_inv_inserts[of int_min int_max "[(5, \<lambda>i. 1), (7, \<lambda>i. 0)]"]
  obtain s where s: "run int_min int_max (inserts [(5, \<lambda>i. 1), (7, \<lambda>i. 0)]) = Some (Inr s)"
    and inv: "sl_inv s" by blast
  have "(case run int_min int_max (inserts [(5, \<lambda>i. 1), (7, \<lambda>i. 0)]) of
           Some (Inr s) \<Rightarrow> brk s = 4 \<and> size_sl s = 2 \<and> forward_nodes s = Some (Inr [2, 3])
         | _ \<Rightarrow> False)"
    by code_simp
  with s have ev: "brk s = 4" "size_sl s = 2" "forward_nodes s = Some (Inr [2, 3])"
    by simp_all
  from insert_then_remove_restores[OF inv, of 5 "\<lambda>i. 1"] ev s inv
  show ?thesis by auto
qed

section \<open>Levels of the nodes\<close>

text \<open>
  C9. \<open>random_level\<close> never returns 0 (and never more than \<open>max_levels\<close>). After the
  constructor and any number of inserts without a hint, with no removal, every call has
  returned, every stored node has level 1 at least, and the chains of the levels 0 and 1
  are the same list, which holds exactly the stored nodes.
\<close>

theorem level_one_chain_holds_every_node:
  fixes vmin vmax :: "'a::linorder"
  shows "1 \<le> random_level rnd \<and> random_level rnd \<le> max_levels \<and>
     (\<exists>s xs. run vmin vmax (inserts vs) = Some (Inr s) \<and>
        level_nodes s 0 = Some (Inr xs) \<and> level_nodes s 1 = Some (Inr xs) \<and>
        (\<forall>a. stored s a = (a \<in> set xs)) \<and>
        (\<forall>a. stored s a \<longrightarrow> 1 \<le> lev (heap s) a))"
proof -
  from run_inserts[of vmin vmax vs] obtain s C where
    s: "run vmin vmax (inserts vs) = Some (Inr s)" "sl_rep s C" "C 1 = C 0"
      "\<forall>a\<in>set (C 0). 1 \<le> lev (heap s) a"
    by blast
  have "level_nodes s 0 = Some (Inr (C 0))" using s(2) by (rule sl_rep_level_nodes) simp
  moreover have "level_nodes s 1 = Some (Inr (C 0))"
    using sl_rep_level_nodes[OF s(2), of 1] s(3) by (simp add: max_levels_def)
  moreover have "\<forall>a. stored s a = (a \<in> set (C 0))" using s(2) by (simp add: sl_rep_stored)
  moreover have "\<forall>a. stored s a \<longrightarrow> 1 \<le> lev (heap s) a"
    using s(2,4) by (simp add: sl_rep_stored)
  ultimately show ?thesis using s(1) random_level_bounds[of rnd] by blast
qed

text \<open>
  Three inserts, of 5 at level 1, of 3 at level 5 and of 9 at level 2: both chains are
  3, 5, 9 (the handles 3, 2, 4).
\<close>

theorem level_one_chain_holds_every_node_witness:
  "\<exists>s. run int_min int_max (inserts [(5, \<lambda>i. 1), (3, \<lambda>i. 0), (9, \<lambda>i. i)]) = Some (Inr s) \<and>
     level_nodes s 0 = Some (Inr [3, 2, 4]) \<and> level_nodes s 1 = Some (Inr [3, 2, 4]) \<and>
     stored s 4 \<and> lev (heap s) 4 = 2 \<and> random_level (\<lambda>i. i) = 2"
proof -
  from level_one_chain_holds_every_node[of "\<lambda>i. i" int_min int_max
      "[(5, \<lambda>i. 1), (3, \<lambda>i. 0), (9, \<lambda>i. i)]"]
  obtain s xs where
    s: "run int_min int_max (inserts [(5, \<lambda>i. 1), (3, \<lambda>i. 0), (9, \<lambda>i. i)]) = Some (Inr s)"
      "level_nodes s 0 = Some (Inr xs)" "level_nodes s 1 = Some (Inr xs)"
      "\<forall>a. stored s a = (a \<in> set xs)"
    by blast
  have "(case run int_min int_max (inserts [(5, \<lambda>i. 1), (3, \<lambda>i. 0), (9, \<lambda>i. i)]) of
           Some (Inr s) \<Rightarrow> level_nodes s 0 = Some (Inr [3, 2, 4]) \<and> lev (heap s) 4 = 2
         | _ \<Rightarrow> False) \<and> random_level (\<lambda>i. i) = 2"
    by code_simp
  with s show ?thesis by auto
qed

section \<open>Search\<close>

lemma find_scan_path:
  fixes h :: "'a::linorder heap"
  assumes "path h L cur zs t" "t \<notin> set zs" "\<And>a. a \<in> set zs \<Longrightarrow> h a \<noteq> None"
  shows "\<exists>r. find_scan h t v L cur = Some (Inr r) \<and> r \<in> set (cur # zs) \<and>
           (r = cur \<or> upto h v r) \<and>
           (val h r = Some v \<or> nxt h L r = Some t \<or>
            (\<exists>z. nxt h L r = Some z \<and> z \<in> set zs \<and> \<not> upto h v z))"
  using assms
proof (induction zs arbitrary: cur)
  case Nil
  then obtain c where c: "h cur = Some c" and l: "L < len h cur" and n: "nxt h L cur = Some t"
    using nxt_Some_live[of h L cur t] by auto
  have "find_scan h t v L cur = Some (Inr cur)"
    using c l n by (subst find_scan.simps) (simp add: load_Some next_at_nxt[where h=h and a=cur])
  with n show ?case by simp
next
  case (Cons z zs)
  from Cons.prems(1) have n: "nxt h L cur = Some z" and pz: "path h L z zs t" by auto
  from nxt_Some_live[OF n] obtain c where c: "h cur = Some c" and l: "L < len h cur" by auto
  from Cons.prems(3)[of z] obtain m where m: "h z = Some m" by auto
  have zt: "z \<noteq> t" using Cons.prems(2) by auto
  show ?case
  proof (cases "m_value c = v")
    case True
    have "find_scan h t v L cur = Some (Inr cur)"
      using c l n zt True
      by (subst find_scan.simps)
         (simp add: load_Some next_at_nxt[where h=h and a=cur] is_equal_def m_less_def)
    moreover have "val h cur = Some v" using c True by (simp add: val_def)
    ultimately show ?thesis by simp
  next
    case False
    show ?thesis
    proof (cases "m_value m \<le> v")
      case True
      have step: "find_scan h t v L cur = find_scan h t v L z"
        using c l n zt m True False
        by (subst find_scan.simps)
           (auto simp: load_Some next_at_nxt[where h=h and a=cur] is_equal_def m_less_def
              is_less_or_equal_def)
      have uz: "upto h v z" using m True by (simp add: upto_def)
      from Cons.IH[OF pz] Cons.prems(2,3)
      obtain r where r: "find_scan h t v L z = Some (Inr r)" "r \<in> set (z # zs)"
          "r = z \<or> upto h v r"
          "val h r = Some v \<or> nxt h L r = Some t \<or>
            (\<exists>y. nxt h L r = Some y \<and> y \<in> set zs \<and> \<not> upto h v y)"
        by auto
      have "upto h v r" using r(3) uz by auto
      with r step show ?thesis by auto
    next
      case F: False
      have "find_scan h t v L cur = Some (Inr cur)"
        using c l n zt m F False
        by (subst find_scan.simps)
           (auto simp: load_Some next_at_nxt[where h=h and a=cur] is_equal_def m_less_def
              is_less_or_equal_def)
      moreover have "\<not> upto h v z" using m F by (simp add: upto_def)
      ultimately show ?thesis using n by auto
    qed
  qed
qed

lemma find_scan_lvl:
  fixes h :: "'a::linorder heap"
  assumes "lvl h hp t L xs" "cur \<in> set (hp # xs)"
  shows "\<exists>r. find_scan h t v L cur = Some (Inr r) \<and> r \<in> set (hp # xs) \<and>
           (r = cur \<or> upto h v r) \<and>
           (val h r = Some v \<or> nxt h L r = Some t \<or>
            (\<exists>z. nxt h L r = Some z \<and> z \<in> set xs \<and> \<not> upto h v z))"
proof -
  from assms obtain pre zs where s: "hp # xs = pre @ cur # zs" "cur \<notin> set pre"
    "path h L cur zs t" "set zs \<subseteq> set xs"
    by (rule lvl_suffix)
  have sub: "set (cur # zs) \<subseteq> set (hp # xs)" unfolding s(1) by auto
  have "t \<notin> set zs" "\<And>a. a \<in> set zs \<Longrightarrow> h a \<noteq> None"
    using s(4) assms(1) by (auto simp: lvl_def)
  from find_scan_path[OF s(3) this, of v]
  obtain r where r: "find_scan h t v L cur = Some (Inr r)" "r \<in> set (cur # zs)"
      "r = cur \<or> upto h v r"
      "val h r = Some v \<or> nxt h L r = Some t \<or>
            (\<exists>z. nxt h L r = Some z \<and> z \<in> set zs \<and> \<not> upto h v z)"
    by blast
  have "r \<in> set (hp # xs)" using r(2) sub by blast
  moreover have "val h r = Some v \<or> nxt h L r = Some t \<or>
            (\<exists>z. nxt h L r = Some z \<and> z \<in> set xs \<and> \<not> upto h v z)"
    using r(4) s(4) by blast
  ultimately show ?thesis using r(1,3) by blast
qed

lemma find_down_lvl:
  fixes h :: "'a::linorder heap"
  assumes "\<And>K. K \<le> level \<Longrightarrow> lvl h hp t K (C K)"
    and "\<And>K. K < level \<Longrightarrow> set (C (Suc K)) \<subseteq> set (C K)"
    and "cur \<in> set (hp # C level)" "cur = hp \<or> upto h v cur"
  shows "\<exists>r. find_down h t v (Suc level) cur = Some (Inr r) \<and> r \<in> set (hp # C 0) \<and>
           (r = hp \<or> upto h v r) \<and>
           (val h r = Some v \<or> nxt h 0 r = Some t \<or>
            (\<exists>z. nxt h 0 r = Some z \<and> z \<in> set (C 0) \<and> \<not> upto h v z))"
  using assms
proof (induction level arbitrary: cur)
  case 0
  have "lvl h hp t 0 (C 0)" using "0.prems"(1) by simp
  from find_scan_lvl[OF this "0.prems"(3), of v] "0.prems"(4)
  show ?case by auto
next
  case (Suc l)
  have "lvl h hp t (Suc l) (C (Suc l))" using Suc.prems(1) by simp
  from find_scan_lvl[OF this Suc.prems(3), of v]
  obtain q where q: "find_scan h t v (Suc l) cur = Some (Inr q)" "q \<in> set (hp # C (Suc l))"
      "q = cur \<or> upto h v q"
    by blast
  have qin: "q \<in> set (hp # C l)" using q(2) Suc.prems(2)[of l] by auto
  have qu: "q = hp \<or> upto h v q" using q(3) Suc.prems(4) by auto
  have "\<exists>r. find_down h t v (Suc l) q = Some (Inr r) \<and> r \<in> set (hp # C 0) \<and>
           (r = hp \<or> upto h v r) \<and>
           (val h r = Some v \<or> nxt h 0 r = Some t \<or>
            (\<exists>z. nxt h 0 r = Some z \<and> z \<in> set (C 0) \<and> \<not> upto h v z))"
  proof (rule Suc.IH[OF _ _ qin qu])
    fix K assume "K \<le> l"
    then have "K \<le> Suc l" by simp
    then show "lvl h hp t K (C K)" by (rule Suc.prems(1))
  next
    fix K assume "K < l"
    then have "K < Suc l" by simp
    then show "set (C (Suc K)) \<subseteq> set (C K)" by (rule Suc.prems(2))
  qed
  then show ?case using q(1) by simp
qed

lemma le_val_upto: "le_val h z y \<Longrightarrow> \<not> upto h v z \<Longrightarrow> \<not> upto h v y"
  by (auto simp: le_val_def upto_def split: option.splits)

lemma upto_le_val: "upto h v x \<Longrightarrow> val h r = Some v \<Longrightarrow> le_val h x r"
  by (auto simp: le_val_def upto_def val_def split: option.splits)

lemma le_val_refl: "h a \<noteq> None \<Longrightarrow> le_val h a a"
  by (auto simp: le_val_def)

lemma chain_split_cases:
  assumes "hp # xs = pre @ r # post" "distinct (hp # xs)"
  shows "(r = hp \<and> pre = [] \<and> xs = post) \<or> (r \<noteq> hp \<and> (\<exists>xs1. pre = hp # xs1 \<and> xs = xs1 @ r # post))"
  using assms by (cases pre) auto

lemma floor_from_stop:
  fixes h :: "'a::linorder heap"
  assumes sorted: "sorted_wrt (le_val h) xs" and live: "\<And>a. a \<in> set xs \<Longrightarrow> h a \<noteq> None"
    and pth: "path h 0 hp xs t" and dist: "distinct (hp # xs @ [t])"
    and r: "r \<in> set (hp # xs)"
    and stop: "val h r = Some v \<or> nxt h 0 r = Some t \<or>
            (\<exists>z. nxt h 0 r = Some z \<and> z \<in> set xs \<and> \<not> upto h v z)"
    and hv: "val h hp \<noteq> Some v"
    and x: "x \<in> set xs" "upto h v x"
  shows "r \<noteq> hp \<and> le_val h x r"
proof -
  from split_list[OF r] obtain pre post where sp: "hp # xs = pre @ r # post" by blast
  have pr: "path h 0 r post t" using pth sp by (rule path_suffix)
  have d: "distinct (hp # xs)" using dist by simp
  from stop show ?thesis
  proof (elim disjE exE conjE)
    assume v: "val h r = Some v"
    then have "r \<noteq> hp" using hv by auto
    moreover have "le_val h x r" using x(2) v by (rule upto_le_val)
    ultimately show ?thesis by simp
  next
    assume nt: "nxt h 0 r = Some t"
    have post: "post = []"
    proof (cases post)
      case Nil then show ?thesis .
    next
      case (Cons z zs)
      with pr have "nxt h 0 r = Some z" by simp
      with nt have "z = t" by simp
      moreover have "z \<in> set (hp # xs)" unfolding sp Cons by simp
      ultimately show ?thesis using dist by auto
    qed
    from chain_split_cases[OF sp d] show ?thesis
    proof (elim disjE conjE exE)
      assume "r = hp" "pre = []" "xs = post"
      with post x(1) show ?thesis by simp
    next
      fix xs1 assume rh: "r \<noteq> hp" and xs: "xs = xs1 @ r # post"
      have "le_val h x r"
      proof (cases "x = r")
        case True
        then show ?thesis using live[OF x(1)] by (simp add: le_val_refl)
      next
        case False
        with x(1) xs post have "x \<in> set xs1" by simp
        then show ?thesis using sorted unfolding xs by (simp add: sorted_wrt_append)
      qed
      with rh show ?thesis by simp
    qed
  next
    fix z assume nz: "nxt h 0 r = Some z" and zin: "z \<in> set xs" and zu: "\<not> upto h v z"
    obtain zs where post: "post = z # zs"
    proof (cases post)
      case Nil
      with pr nz have "z = t" by simp
      with zin dist show ?thesis by auto
    next
      case (Cons y ys)
      with pr nz have "y = z" by simp
      with Cons that show ?thesis by simp
    qed
    from chain_split_cases[OF sp d] show ?thesis
    proof (elim disjE conjE exE)
      assume rh: "r = hp" "pre = []" and xs: "xs = post"
      have "sorted_wrt (le_val h) (z # zs)" using sorted xs post by simp
      then have "\<forall>y\<in>set zs. le_val h z y" by simp
      then have "\<forall>y\<in>set (z # zs). \<not> upto h v y" using zu le_val_upto[of h z _ v] by auto
      with x xs post show ?thesis by auto
    next
      fix xs1 assume rh: "r \<noteq> hp" and xs: "xs = xs1 @ r # post"
      have s: "sorted_wrt (le_val h) (xs1 @ r # z # zs)" using sorted xs post by simp
      then have "\<forall>y\<in>set zs. le_val h z y" by (simp add: sorted_wrt_append)
      then have nz: "\<forall>y\<in>set (z # zs). \<not> upto h v y" using zu le_val_upto[of h z _ v] by auto
      have "le_val h x r"
      proof (cases "x = r")
        case True
        then show ?thesis using live[OF x(1)] by (simp add: le_val_refl)
      next
        case False
        with x xs post nz have "x \<in> set xs1" by auto
        then show ?thesis using s by (simp add: sorted_wrt_append)
      qed
      with rh show ?thesis by simp
    qed
  qed
qed

lemma sl_rep_find:
  fixes s :: "'a::linorder sl_impl"
  assumes rep: "sl_rep s C" and hv: "val (heap s) (m_head s) \<noteq> Some v"
  shows "\<exists>r. find_sl s v = Some (Inr r) \<and> r \<in> set (m_head s # C 0) \<and>
           (r = m_head s \<or> upto (heap s) v r) \<and>
           (val (heap s) r = Some v \<or> nxt (heap s) 0 r = Some (m_tail s) \<or>
            (\<exists>z. nxt (heap s) 0 r = Some z \<and> z \<in> set (C 0) \<and> \<not> upto (heap s) v z)) \<and>
           (\<forall>x\<in>set (C 0). upto (heap s) v x \<longrightarrow> r \<noteq> m_head s \<and> le_val (heap s) x r)"
proof -
  let ?h = "heap s" and ?hp = "m_head s" and ?t = "m_tail s"
  have ml: "m_levels s = max_levels" using sl_rep_head[OF rep] by simp
  have "\<exists>r. find_down ?h ?t v (Suc max_levels) ?hp = Some (Inr r) \<and> r \<in> set (?hp # C 0) \<and>
           (r = ?hp \<or> upto ?h v r) \<and>
           (val ?h r = Some v \<or> nxt ?h 0 r = Some ?t \<or>
            (\<exists>z. nxt ?h 0 r = Some z \<and> z \<in> set (C 0) \<and> \<not> upto ?h v z))"
  proof (rule find_down_lvl)
    fix K assume "K \<le> max_levels"
    with rep show "lvl ?h ?hp ?t K (C K)" by (rule sl_rep_lvl)
  next
    fix K assume "K < max_levels"
    then show "set (C (Suc K)) \<subseteq> set (C K)" using sl_rep_nested[OF rep, of K] by simp
  qed simp_all
  then obtain r where r: "find_sl s v = Some (Inr r)" "r \<in> set (?hp # C 0)"
      "r = ?hp \<or> upto ?h v r"
      "val ?h r = Some v \<or> nxt ?h 0 r = Some ?t \<or>
            (\<exists>z. nxt ?h 0 r = Some z \<and> z \<in> set (C 0) \<and> \<not> upto ?h v z)"
    unfolding find_sl_def ml by auto
  have l0: "lvl ?h ?hp ?t 0 (C 0)" using rep by (rule sl_rep_lvl) simp
  have "\<forall>x\<in>set (C 0). upto ?h v x \<longrightarrow> r \<noteq> ?hp \<and> le_val ?h x r"
  proof (intro ballI impI)
    fix x assume x: "x \<in> set (C 0)" "upto ?h v x"
    show "r \<noteq> ?hp \<and> le_val ?h x r"
    proof (rule floor_from_stop[OF _ _ _ _ r(2) r(4) hv x])
      show "sorted_wrt (le_val ?h) (C 0)" using rep by (rule sl_rep_sorted) simp
      show "\<And>a. a \<in> set (C 0) \<Longrightarrow> ?h a \<noteq> None" using l0 by (simp add: lvl_def)
      show "path ?h 0 ?hp (C 0) ?t" using l0 by (simp add: lvl_def)
      show "distinct (?hp # C 0 @ [?t])" using rep by (rule sl_rep_distinct) simp
    qed
  qed
  with r show ?thesis by blast
qed

lemma below_upto: "below h v a = (upto h v a \<and> val h a \<noteq> Some v)"
  by (auto simp: below_def upto_def val_def split: option.splits)

lemma le_val_below:
  assumes "le_val h x r" "below h v r"
  shows "below h v x"
proof -
  from assms(1) obtain n m where nm: "h x = Some n" "h r = Some m" "m_value n \<le> m_value m"
    by (auto simp: le_val_def split: option.splits)
  from assms(2) nm(2) have "m_value m < v" by (simp add: below_def)
  with nm(3) have "m_value n < v" by (rule le_less_trans)
  with nm(1) show ?thesis by (simp add: below_def)
qed

lemma sl_rep_find_first:
  fixes s :: "'a::linorder sl_impl"
  assumes rep: "sl_rep s C" and hv: "val (heap s) (m_head s) \<noteq> Some v"
  shows "\<exists>p. find_first s v = Some (Inr (Some p)) \<and>
           ((p \<in> set (C 0) \<and> val (heap s) p = Some v) \<or>
            (p = m_tail s \<and> (\<forall>a\<in>set (C 0). below (heap s) v a)) \<or>
            (\<exists>pre post. C 0 = pre @ p # post \<and> (\<forall>a\<in>set pre. below (heap s) v a) \<and>
               \<not> upto (heap s) v p))"
proof -
  let ?h = "heap s" and ?hp = "m_head s" and ?t = "m_tail s"
  from sl_rep_find[OF rep hv]
  obtain r where r: "find_sl s v = Some (Inr r)" "r \<in> set (?hp # C 0)"
      "r = ?hp \<or> upto ?h v r"
      "val ?h r = Some v \<or> nxt ?h 0 r = Some ?t \<or>
            (\<exists>z. nxt ?h 0 r = Some z \<and> z \<in> set (C 0) \<and> \<not> upto ?h v z)"
    by blast
  have l0: "lvl ?h ?hp ?t 0 (C 0)" using rep by (rule sl_rep_lvl) simp
  have pth: "path ?h 0 ?hp (C 0) ?t" using l0 by (simp add: lvl_def)
  have dist: "distinct (?hp # C 0 @ [?t])" using rep by (rule sl_rep_distinct) simp
  have srt: "sorted_wrt (le_val ?h) (C 0)" using rep by (rule sl_rep_sorted) simp
  from path_next_in[OF pth r(2)] obtain y where y: "nxt ?h 0 r = Some y" by blast
  from nxt_Some_live[OF y] obtain n where n: "?h r = Some n" and l: "0 < len ?h r" by auto
  have vn: "val ?h r = Some (m_value n)" using n by (simp add: val_def)
  show ?thesis
  proof (cases "m_value n = v")
    case True
    have "find_first s v = Some (Inr (Some r))"
      using r(1) n True by (simp add: find_first_def load_Some is_equal_def m_less_def)
    moreover have "r \<noteq> ?hp" using vn True hv by auto
    ultimately show ?thesis using r(2) vn True by auto
  next
    case False
    have ff: "find_first s v = Some (Inr (Some y))"
      using r(1) n l y False
      by (auto simp: find_first_def load_Some is_equal_def m_less_def
          next_at_nxt[where h="?h" and a=r])
    have nv: "val ?h r \<noteq> Some v" using vn False by simp
    from split_list[OF r(2)] obtain pre0 post0 where sp: "?hp # C 0 = pre0 @ r # post0" by blast
    have pr: "path ?h 0 r post0 ?t" using pth sp by (rule path_suffix)
    have d: "distinct (?hp # C 0)" using dist by simp
    have before: "\<And>xs1. C 0 = xs1 @ r # post0 \<Longrightarrow> \<forall>a\<in>set (xs1 @ [r]). below ?h v a"
    proof -
      fix xs1 assume xs: "C 0 = xs1 @ r # post0"
      have "r \<noteq> ?hp" using d xs by auto
      with r(3) nv have br: "below ?h v r" by (simp add: below_upto)
      have "\<forall>a\<in>set xs1. le_val ?h a r" using srt unfolding xs by (simp add: sorted_wrt_append)
      then have "\<forall>a\<in>set xs1. below ?h v a" using br le_val_below[of ?h _ r v] by blast
      with br show "\<forall>a\<in>set (xs1 @ [r]). below ?h v a" by simp
    qed
    let ?goal = "\<exists>p. find_first s v = Some (Inr (Some p)) \<and>
           ((p \<in> set (C 0) \<and> val ?h p = Some v) \<or>
            (p = ?t \<and> (\<forall>a\<in>set (C 0). below ?h v a)) \<or>
            (\<exists>pre post. C 0 = pre @ p # post \<and> (\<forall>a\<in>set pre. below ?h v a) \<and>
               \<not> upto ?h v p))"
    show ?thesis
    proof (cases post0)
      case Nil
      with pr y have yt: "y = ?t" by simp
      have "\<forall>a\<in>set (C 0). below ?h v a"
      proof (cases "r = ?hp")
        case True
        with chain_split_cases[OF sp d] Nil have "C 0 = []" by auto
        then show ?thesis by simp
      next
        case False
        with chain_split_cases[OF sp d] obtain xs1 where xs: "C 0 = xs1 @ r # post0" by auto
        from before[OF this] xs Nil show ?thesis by simp
      qed
      with ff yt have "find_first s v = Some (Inr (Some ?t)) \<and>
          (?t = ?t \<and> (\<forall>a\<in>set (C 0). below ?h v a))" by simp
      then show ?thesis by (intro exI[of _ ?t]) simp
    next
      case (Cons z zs)
      with pr y have yz: "y = z" by simp
      have "z \<in> set (?hp # C 0)" unfolding sp Cons by simp
      moreover have "?t \<notin> set (?hp # C 0)" using dist by auto
      ultimately have "z \<noteq> ?t" by auto
      with r(4) nv y yz have zu: "\<not> upto ?h v z" by auto
      have "\<exists>pre. C 0 = pre @ z # zs \<and> (\<forall>a\<in>set pre. below ?h v a)"
      proof (cases "r = ?hp")
        case True
        with chain_split_cases[OF sp d] Cons have "C 0 = [] @ z # zs" by auto
        then show ?thesis by (intro exI[of _ "[]"]) simp
      next
        case False
        with chain_split_cases[OF sp d] obtain xs1 where xs: "C 0 = xs1 @ r # post0" by auto
        from before[OF this] have b: "\<forall>a\<in>set (xs1 @ [r]). below ?h v a" .
        have "C 0 = (xs1 @ [r]) @ z # zs" using xs Cons by simp
        with b show ?thesis by (intro exI[of _ "xs1 @ [r]"]) simp
      qed
      then obtain pre where pre: "C 0 = pre @ z # zs" "\<forall>a\<in>set pre. below ?h v a" by blast
      have "\<exists>pre post. C 0 = pre @ z # post \<and> (\<forall>a\<in>set pre. below ?h v a) \<and> \<not> upto ?h v z"
        using pre zu by blast
      with ff yz show ?thesis by (intro exI[of _ z]) simp
    qed
  qed
qed

text \<open>
  The target that equals the value the head sentinel holds: the first test of the loop
  of \<open>find\<close> that can fail is \<open>is_equal(curr->m_value, value)\<close> on the head itself, so
  \<open>find\<close> never leaves the head, and \<open>find_first\<close> keeps it.
\<close>

lemma find_scan_at_value:
  fixes h :: "'a::linorder heap"
  assumes "h cur = Some c" "L < length (m_next c)" "m_value c = v"
  shows "find_scan h t v L cur = Some (Inr cur)"
  using assms
  by (subst find_scan.simps) (simp add: load_def next_at_def is_equal_def m_less_def)

lemma find_down_at_value:
  fixes h :: "'a::linorder heap"
  assumes "h cur = Some c" "m_value c = v"
  shows "n \<le> length (m_next c) \<Longrightarrow> find_down h t v n cur = Some (Inr cur)"
proof (induction n)
  case 0
  show ?case by simp
next
  case (Suc n)
  then have "find_scan h t v n cur = Some (Inr cur)"
    using assms by (intro find_scan_at_value) simp_all
  with Suc show ?case by simp
qed

lemma find_at_head_value:
  fixes s :: "'a::linorder sl_impl"
  assumes "sl_inv s" "val (heap s) (m_head s) = Some v"
  shows "find_sl s v = Some (Inr (m_head s)) \<and> find_first s v = Some (Inr (Some (m_head s)))"
proof -
  from assms(1) obtain C where rep: "sl_rep s C" unfolding sl_inv_def by blast
  have hd: "len (heap s) (m_head s) = max_levels + 1" "m_levels s = max_levels"
    using sl_rep_head[OF rep] by simp_all
  from assms(2) obtain c where c: "heap s (m_head s) = Some c" "m_value c = v"
    by (auto simp: val_def)
  have "m_levels s + 1 \<le> length (m_next c)" using hd c(1) by (simp add: len_def)
  with c have f: "find_sl s v = Some (Inr (m_head s))"
    unfolding find_sl_def by (intro find_down_at_value) simp_all
  then have "find_first s v = Some (Inr (Some (m_head s)))"
    using c by (simp add: find_first_def load_Some is_equal_def m_less_def)
  with f show ?thesis by simp
qed

text \<open>
  Every other target. In a well-formed engine \<open>find\<close> returns a node that is not the
  tail: the head, or a stored node whose value is at most the target. Every stored node
  whose value is at most the target has a value at most that of the returned node, which
  is a stored node then; so the returned node holds the greatest stored value not above
  the target. When no stored value is at most the target, the head is returned.
\<close>

theorem find_is_floor_search:
  fixes s :: "'a::linorder sl_impl"
  assumes "sl_inv s" "val (heap s) (m_head s) \<noteq> Some v"
  shows "\<exists>r. find_sl s v = Some (Inr r) \<and> r \<noteq> m_tail s \<and>
           (r = m_head s \<or> stored s r \<and> upto (heap s) v r) \<and>
           (\<forall>a. stored s a \<and> upto (heap s) v a \<longrightarrow> stored s r \<and> le_val (heap s) a r) \<and>
           ((\<forall>a. stored s a \<longrightarrow> \<not> upto (heap s) v a) \<longrightarrow> r = m_head s)"
proof -
  from assms(1) obtain C where rep: "sl_rep s C" unfolding sl_inv_def by blast
  from sl_rep_find[OF rep assms(2)]
  obtain r where r: "find_sl s v = Some (Inr r)" "r \<in> set (m_head s # C 0)"
      "r = m_head s \<or> upto (heap s) v r"
      "\<forall>x\<in>set (C 0). upto (heap s) v x \<longrightarrow> r \<noteq> m_head s \<and> le_val (heap s) x r"
    by blast
  have st: "\<And>a. stored s a = (a \<in> set (C 0))" using rep by (rule sl_rep_stored)
  have "r \<noteq> m_tail s" using r(2) sl_rep_distinct[OF rep, of 0] by auto
  moreover have "r = m_head s \<or> stored s r \<and> upto (heap s) v r" using r(2,3) st by auto
  moreover have "\<forall>a. stored s a \<and> upto (heap s) v a \<longrightarrow> stored s r \<and> le_val (heap s) a r"
    using r(2,4) st by auto
  moreover have "(\<forall>a. stored s a \<longrightarrow> \<not> upto (heap s) v a) \<longrightarrow> r = m_head s"
    using r(2,3) st by auto
  ultimately show ?thesis using r(1) by blast
qed

text \<open>
  An engine that holds 5 and 7 (handles 2 and 3): \<open>find(6)\<close> returns the node of 5,
  \<open>find(4)\<close> the head.
\<close>

theorem find_is_floor_search_witness:
  "\<exists>s. run int_min int_max (inserts [(5, \<lambda>i. 1), (7, \<lambda>i. 0)]) = Some (Inr s) \<and> sl_inv s \<and>
     val (heap s) (m_head s) \<noteq> Some 6 \<and> find_sl s 6 = Some (Inr 2) \<and> stored s 2 \<and>
     val (heap s) 2 = Some 5 \<and> find_sl s 4 = Some (Inr (m_head s))"
proof -
  from sl_inv_inserts[of int_min int_max "[(5, \<lambda>i. 1), (7, \<lambda>i. 0)]"]
  obtain s where s: "run int_min int_max (inserts [(5, \<lambda>i. 1), (7, \<lambda>i. 0)]) = Some (Inr s)"
    and inv: "sl_inv s" by blast
  have "(case run int_min int_max (inserts [(5, \<lambda>i. 1), (7, \<lambda>i. 0)]) of
           Some (Inr s) \<Rightarrow> val (heap s) (m_head s) \<noteq> Some 6 \<and> find_sl s 6 = Some (Inr 2) \<and>
             stored s 2 \<and> val (heap s) 2 = Some 5 \<and> find_sl s 4 = Some (Inr (m_head s))
         | _ \<Rightarrow> False)"
    by code_simp
  with s have ev: "val (heap s) (m_head s) \<noteq> Some 6" "find_sl s 6 = Some (Inr 2)"
      "stored s 2" "val (heap s) 2 = Some 5" "find_sl s 4 = Some (Inr (m_head s))"
    by simp_all
  from find_is_floor_search[OF inv ev(1)] s inv ev show ?thesis by blast
qed

text \<open>
  C2. \<open>find\<close> does not return the node that holds the greatest stored value at most the
  target when the target is the value of the head sentinel, here \<open>int_min\<close>. The engine
  that stores \<open>int_min\<close> (handle 2) is well formed, and \<open>find(int_min)\<close> returns the head
  sentinel, which is not a stored node, although node 2 holds a value at most the target.
  At the other end the loop compares the next pointer with the tail's address and never
  reads the tail's value: in the engine that stores \<open>int_max\<close>, \<open>find(int_max)\<close> returns the
  stored node.
\<close>

theorem find_minimum_returns_head:
  "(case run int_min int_max (inserts [(int_min, \<lambda>i. 1)]) of
      Some (Inr s) \<Rightarrow> sl_inv s \<and> find_sl s int_min = Some (Inr (m_head s)) \<and>
        \<not> stored s (m_head s) \<and> stored s 2 \<and> val (heap s) 2 = Some int_min \<and>
        upto (heap s) int_min 2
    | _ \<Rightarrow> False) \<and>
   (case run int_min int_max (inserts [(int_max, \<lambda>i. 1)]) of
      Some (Inr s) \<Rightarrow> find_sl s int_max = Some (Inr 2) \<and> stored s 2 \<and>
        val (heap s) 2 = Some int_max
    | _ \<Rightarrow> False)"
proof -
  from sl_inv_inserts[of int_min int_max "[(int_min, \<lambda>i. 1)]"]
  obtain s where s: "run int_min int_max (inserts [(int_min, \<lambda>i. 1)]) = Some (Inr s)"
    and inv: "sl_inv s" by blast
  have "(case run int_min int_max (inserts [(int_min, \<lambda>i. 1)]) of
      Some (Inr s) \<Rightarrow> find_sl s int_min = Some (Inr (m_head s)) \<and>
        \<not> stored s (m_head s) \<and> stored s 2 \<and> val (heap s) 2 = Some int_min \<and>
        upto (heap s) int_min 2
    | _ \<Rightarrow> False) \<and>
   (case run int_min int_max (inserts [(int_max, \<lambda>i. 1)]) of
      Some (Inr s) \<Rightarrow> find_sl s int_max = Some (Inr 2) \<and> stored s 2 \<and>
        val (heap s) 2 = Some int_max
    | _ \<Rightarrow> False)"
    by code_simp
  with s inv show ?thesis by simp
qed

text \<open>
  \<open>find_first\<close> for a target other than the value the head sentinel holds. In a
  well-formed engine it returns a stored node whose value equals the target; or the tail,
  and then every stored value is less than the target; or a stored node whose value is
  greater than the target while every node in front of it on the bottom chain has a
  smaller value than the target.
\<close>

theorem find_first_result:
  fixes s :: "'a::linorder sl_impl"
  assumes "sl_inv s" "val (heap s) (m_head s) \<noteq> Some v"
  shows "\<exists>p xs. find_first s v = Some (Inr (Some p)) \<and> forward_nodes s = Some (Inr xs) \<and>
           ((p \<in> set xs \<and> val (heap s) p = Some v) \<or>
            (p = m_tail s \<and> (\<forall>a\<in>set xs. below (heap s) v a)) \<or>
            (\<exists>pre post. xs = pre @ p # post \<and> (\<forall>a\<in>set pre. below (heap s) v a) \<and>
               \<not> upto (heap s) v p))"
proof -
  from assms(1) obtain C where rep: "sl_rep s C" unfolding sl_inv_def by blast
  from sl_rep_find_first[OF rep assms(2)] sl_rep_forward[OF rep] show ?thesis by blast
qed

text \<open>
  An engine that holds 5 and 7 (handles 2 and 3): \<open>find_first(5)\<close> returns the node of
  5, \<open>find_first(6)\<close> the node of 7, \<open>find_first(8)\<close> the tail.
\<close>

theorem find_first_result_example:
  "\<exists>s. run int_min int_max (inserts [(5, \<lambda>i. 1), (7, \<lambda>i. 0)]) = Some (Inr s) \<and> sl_inv s \<and>
     val (heap s) (m_head s) \<noteq> Some 6 \<and> forward_nodes s = Some (Inr [2, 3]) \<and>
     find_first s 5 = Some (Inr (Some 2)) \<and> find_first s 6 = Some (Inr (Some 3)) \<and>
     find_first s 8 = Some (Inr (Some (m_tail s)))"
proof -
  from sl_inv_inserts[of int_min int_max "[(5, \<lambda>i. 1), (7, \<lambda>i. 0)]"]
  obtain s where s: "run int_min int_max (inserts [(5, \<lambda>i. 1), (7, \<lambda>i. 0)]) = Some (Inr s)"
    and inv: "sl_inv s" by blast
  have "(case run int_min int_max (inserts [(5, \<lambda>i. 1), (7, \<lambda>i. 0)]) of
           Some (Inr s) \<Rightarrow> val (heap s) (m_head s) \<noteq> Some 6 \<and>
             forward_nodes s = Some (Inr [2, 3]) \<and>
             find_first s 5 = Some (Inr (Some 2)) \<and> find_first s 6 = Some (Inr (Some 3)) \<and>
             find_first s 8 = Some (Inr (Some (m_tail s)))
         | _ \<Rightarrow> False)"
    by code_simp
  with s have ev: "val (heap s) (m_head s) \<noteq> Some 6" "forward_nodes s = Some (Inr [2, 3])"
      "find_first s 5 = Some (Inr (Some 2))" "find_first s 6 = Some (Inr (Some 3))"
      "find_first s 8 = Some (Inr (Some (m_tail s)))"
    by simp_all
  from find_first_result[OF inv ev(1)] s inv ev show ?thesis by blast
qed

text \<open>
  C6. \<open>find_first\<close> is not a lower-bound search for the target that is the value of the
  head sentinel, here \<open>int_min\<close>: on the empty engine \<open>find_first(int_min)\<close> returns the
  head sentinel, not the tail, and on the engine that stores \<open>int_min\<close> (handle 2) it
  returns the head sentinel as well, not the stored node. Among equal values the node it
  returns need not be the first one: after three inserts of 5 with the levels 1, 5 and 1
  the bottom chain is 4, 3, 2, and \<open>find_first(5)\<close> returns node 3, which \<open>find\<close> meets
  first on the upper levels.
\<close>

theorem find_first_minimum_returns_head:
  "(case run int_min int_max [] of
      Some (Inr s) \<Rightarrow> sl_inv s \<and> find_first s int_min = Some (Inr (Some (m_head s))) \<and>
        m_head s \<noteq> m_tail s \<and> \<not> stored s (m_head s)
    | _ \<Rightarrow> False) \<and>
   (case run int_min int_max (inserts [(int_min, \<lambda>i. 1)]) of
      Some (Inr s) \<Rightarrow> sl_inv s \<and> find_first s int_min = Some (Inr (Some (m_head s))) \<and>
        m_head s \<noteq> m_tail s \<and> \<not> stored s (m_head s) \<and> stored s 2 \<and>
        val (heap s) 2 = Some int_min
    | _ \<Rightarrow> False) \<and>
   (case run int_min int_max (inserts [(5, \<lambda>i. 1), (5, \<lambda>i. 0), (5, \<lambda>i. 1)]) of
      Some (Inr s) \<Rightarrow> sl_inv s \<and> forward_nodes s = Some (Inr [4, 3, 2]) \<and>
        find_first s 5 = Some (Inr (Some 3))
    | _ \<Rightarrow> False)"
proof -
  from sl_inv_inserts[of int_min int_max "[]"]
  obtain s0 where s0: "run int_min int_max [] = Some (Inr s0)" and inv0: "sl_inv s0"
    by (auto simp: inserts_def)
  from sl_inv_inserts[of int_min int_max "[(int_min, \<lambda>i. 1)]"]
  obtain s where s: "run int_min int_max (inserts [(int_min, \<lambda>i. 1)]) = Some (Inr s)"
    and inv: "sl_inv s" by blast
  from sl_inv_inserts[of int_min int_max "[(5, \<lambda>i. 1), (5, \<lambda>i. 0), (5, \<lambda>i. 1)]"]
  obtain s3 where s3: "run int_min int_max (inserts [(5, \<lambda>i. 1), (5, \<lambda>i. 0), (5, \<lambda>i. 1)]) =
      Some (Inr s3)"
    and inv3: "sl_inv s3" by blast
  have "(case run int_min int_max [] of
      Some (Inr s) \<Rightarrow> find_first s int_min = Some (Inr (Some (m_head s))) \<and>
        m_head s \<noteq> m_tail s \<and> \<not> stored s (m_head s)
    | _ \<Rightarrow> False) \<and>
   (case run int_min int_max (inserts [(int_min, \<lambda>i. 1)]) of
      Some (Inr s) \<Rightarrow> find_first s int_min = Some (Inr (Some (m_head s))) \<and>
        m_head s \<noteq> m_tail s \<and> \<not> stored s (m_head s) \<and> stored s 2 \<and>
        val (heap s) 2 = Some int_min
    | _ \<Rightarrow> False) \<and>
   (case run int_min int_max (inserts [(5, \<lambda>i. 1), (5, \<lambda>i. 0), (5, \<lambda>i. 1)]) of
      Some (Inr s) \<Rightarrow> forward_nodes s = Some (Inr [4, 3, 2]) \<and>
        find_first s 5 = Some (Inr (Some 3))
    | _ \<Rightarrow> False)"
    by code_simp
  with s0 inv0 s inv s3 inv3 show ?thesis by simp
qed

section \<open>\<open>remove_all\<close>\<close>

lemma free_chain_path:
  "path h 0 x xs t \<Longrightarrow> distinct (x # xs) \<Longrightarrow> t \<notin> set (x # xs) \<Longrightarrow>
     free_chain h t (Some x) = Some (Inr (\<lambda>b. if b \<in> set (x # xs) then None else h b))"
proof (induction xs arbitrary: x h)
  case Nil
  then have n: "nxt h 0 x = Some t" and xt: "x \<noteq> t" by auto
  from nxt_Some_live[OF n] obtain c where c: "h x = Some c" and l: "0 < len h x" by auto
  have "free_chain (h(x := None)) t (Some t) = Some (Inr (h(x := None)))"
    by (subst free_chain.simps) simp
  then have "free_chain h t (Some x) = Some (Inr (h(x := None)))"
    using n xt c l
    by (subst free_chain.simps) (simp add: load_Some next_at_nxt[where h=h and a=x])
  moreover have "h(x := None) = (\<lambda>b. if b \<in> set [x] then None else h b)" by (rule ext) simp
  ultimately show ?case by simp
next
  case (Cons y ys)
  then have n: "nxt h 0 x = Some y" and py: "path h 0 y ys t" and xt: "x \<noteq> t" by auto
  from nxt_Some_live[OF n] obtain c where c: "h x = Some c" and l: "0 < len h x" by auto
  have "path (h(x := None)) 0 y ys t = path h 0 y ys t"
    using Cons.prems(2) by (intro path_frame) (auto simp: free_simps)
  with py have py': "path (h(x := None)) 0 y ys t" by simp
  have d: "distinct (y # ys)" "t \<notin> set (y # ys)" using Cons.prems(2,3) by auto
  have "free_chain (h(x := None)) t (Some y) =
      Some (Inr (\<lambda>b. if b \<in> set (y # ys) then None else (h(x := None)) b))"
    using py' d by (rule Cons.IH)
  then have "free_chain h t (Some x) =
      Some (Inr (\<lambda>b. if b \<in> set (y # ys) then None else (h(x := None)) b))"
    using n xt c l
    by (subst free_chain.simps) (simp add: load_Some next_at_nxt[where h=h and a=x])
  moreover have "(\<lambda>b. if b \<in> set (y # ys) then None else (h(x := None)) b) =
      (\<lambda>b. if b \<in> set (x # y # ys) then None else h b)"
    by (rule ext) simp
  ultimately show ?case by simp
qed

lemma free_chain_lvl:
  assumes "lvl h hp t 0 xs"
  shows "free_chain h t (nxt h 0 hp) = Some (Inr (\<lambda>b. if b \<in> set xs then None else h b))"
proof (cases xs)
  case Nil
  with assms have "nxt h 0 hp = Some t" by (simp add: lvl_def)
  then show ?thesis using Nil by (subst free_chain.simps) simp
next
  case (Cons x ys)
  with assms have "nxt h 0 hp = Some x" "path h 0 x ys t" "distinct (x # ys)" "t \<notin> set (x # ys)"
    by (auto simp: lvl_def)
  then show ?thesis using free_chain_path[of h x ys t] Cons by simp
qed

lemma reset_head_eq:
  "(\<And>K. K \<in> set ls \<Longrightarrow> K < len h hp) \<Longrightarrow>
     \<exists>h'. reset_head h hp t ls = Inr h' \<and> same_nodes h h' \<and> prv h' = prv h \<and>
       (\<forall>K a. nxt h' K a = (if a = hp \<and> K \<in> set ls then Some t else nxt h K a))"
proof (induction ls arbitrary: h)
  case Nil
  then show ?case by (simp add: same_nodes_refl)
next
  case (Cons L ls)
  let ?h1 = "upd_next h hp L (Some t)"
  have L: "L < len h hp" using Cons.prems[of L] by simp
  have "\<And>K. K \<in> set ls \<Longrightarrow> K < len ?h1 hp" using Cons.prems by (simp add: upd_simps)
  from Cons.IH[OF this] obtain h' where h': "reset_head ?h1 hp t ls = Inr h'"
      "same_nodes ?h1 h'" "prv h' = prv ?h1"
      "\<And>K a. nxt h' K a = (if a = hp \<and> K \<in> set ls then Some t else nxt ?h1 K a)"
    by blast
  have "reset_head h hp t (L # ls) = Inr h'" using L h'(1) by (simp add: store_next_upd)
  moreover have "same_nodes h h'"
    using same_nodes_upd_next[of h hp L "Some t"] h'(2) by (rule same_nodes_trans)
  moreover have "prv h' = prv h" using h'(3) by (simp add: fun_eq_iff upd_simps)
  moreover have "\<forall>K a. nxt h' K a = (if a = hp \<and> K \<in> set (L # ls) then Some t else nxt h K a)"
    using L by (auto simp: h'(4) upd_simps)
  ultimately show ?case by blast
qed

lemma remove_all_rep:
  fixes s :: "'a::linorder sl_impl"
  assumes rep: "sl_rep s C"
  shows "\<exists>h'. remove_all s = Some (Inr (s\<lparr>heap := h', m_size := 0\<rparr>)) \<and>
           sl_rep (s\<lparr>heap := h', m_size := 0\<rparr>) (\<lambda>K. []) \<and>
           (\<forall>L\<le>max_levels. nxt h' L (m_head s) = Some (m_tail s)) \<and>
           prv h' (m_tail s) = Some (m_head s) \<and>
           (\<forall>a. (h' a \<noteq> None) = (a = m_head s \<or> a = m_tail s))"
proof -
  let ?h = "heap s" and ?hp = "m_head s" and ?t = "m_tail s"
  have hd: "?hp \<noteq> ?t" "lev ?h ?hp = max_levels" "len ?h ?hp = max_levels + 1"
      "m_levels s = max_levels"
    using sl_rep_head[OF rep] by simp_all
  have l0: "lvl ?h ?hp ?t 0 (C 0)" using rep by (rule sl_rep_lvl) simp
  have dist: "distinct (?hp # C 0 @ [?t])" using rep by (rule sl_rep_distinct) simp
  obtain hn where hn: "?h ?hp = Some hn" using sl_rep_live[OF rep, of ?hp] by auto
  have fr: "front_sl s = Inr (nxt ?h 0 ?hp)"
    using hn hd(3) by (simp add: front_sl_def load_Some next_at_nxt[where h="?h" and a="?hp"])
  define h1 where "h1 = (\<lambda>b. if b \<in> set (C 0) then None else ?h b)"
  have fc: "free_chain ?h ?t (nxt ?h 0 ?hp) = Some (Inr h1)"
    unfolding h1_def using l0 by (rule free_chain_lvl)
  have live1: "\<And>a. (h1 a \<noteq> None) = (a = ?hp \<or> a = ?t)"
    using sl_rep_live[OF rep] dist by (auto simp: h1_def)
  have h1hp: "h1 ?hp = ?h ?hp" "h1 ?t = ?h ?t" using dist by (auto simp: h1_def)
  have len1: "len h1 ?hp = max_levels + 1" using hd(3) h1hp by (simp add: len_def)
  have "\<And>K. K \<in> set [0 ..< max_levels + 1] \<Longrightarrow> K < len h1 ?hp" using len1 by auto
  from reset_head_eq[OF this, where t="m_tail s"] obtain h2 where
    h2: "reset_head h1 ?hp ?t [0 ..< max_levels + 1] = Inr h2" "same_nodes h1 h2"
      "\<And>K a. nxt h2 K a = (if a = ?hp \<and> K \<in> set [0 ..< max_levels + 1] then Some ?t
                             else nxt h1 K a)"
    by blast
  have live2: "\<And>a. (h2 a \<noteq> None) = (a = ?hp \<or> a = ?t)"
    using h2(2) live1 by (simp add: same_nodes_def)
  define h3 where "h3 = upd_prev h2 ?t (Some ?hp)"
  have sp: "store_prev h2 (Some ?t) (Some ?hp) = Inr h3"
    using live2[of ?t] by (simp add: store_prev_upd h3_def)
  have run: "remove_all s = Some (Inr (s\<lparr>heap := h3, m_size := 0\<rparr>))"
    using fr fc h2(1) sp by (simp add: remove_all_def hd(4))
  have nxt3: "\<And>L. L \<le> max_levels \<Longrightarrow> nxt h3 L ?hp = Some ?t"
    by (simp add: h3_def upd_simps h2(3))
  have prv3: "prv h3 ?t = Some ?hp" using live2[of ?t] by (simp add: h3_def upd_simps)
  have "\<And>a. (h3 a = None) = (h2 a = None)" by (simp add: h3_def upd_simps)
  then have live3: "\<And>a. (h3 a \<noteq> None) = (a = ?hp \<or> a = ?t)"
    using live2 by simp
  have lev1: "lev h1 ?hp = max_levels" using hd(2) h1hp by (simp add: lev_def)
  have lev3: "lev h3 ?hp = max_levels" "len h3 ?hp = max_levels + 1"
    using h2(2) lev1 len1 by (simp_all add: h3_def upd_simps same_nodes_def)
  have "sl_rep (s\<lparr>heap := h3, m_size := 0\<rparr>) (\<lambda>K. [])"
  proof (rule sl_repI[where h=h3 and hp="?hp" and t="?t" and b="brk s"])
    show "\<And>a. brk s \<le> a \<Longrightarrow> h3 a = None"
      using sl_rep_fresh[OF rep] live3 sl_rep_live[OF rep] by (metis)
    show "\<And>L. L \<le> max_levels \<Longrightarrow> lvl h3 ?hp ?t L []" by (simp add: lvl_def nxt3)
    show "back_path h3 ?hp [] ?t" by (simp add: prv3)
    show "h3 ?t \<noteq> None" using live3[of ?t] by simp
    show "\<And>a. (h3 a \<noteq> None) = (a = ?hp \<or> a = ?t \<or> a \<in> set [])" using live3 by simp
  qed (simp_all add: hd lev3)
  with run nxt3 prv3 live3 show ?thesis by blast
qed

text \<open>
  C7. In a well-formed engine \<open>remove_all\<close> returns; afterwards the size is 0, no node
  is stored, on every level up to \<open>max_levels\<close> the head's forward pointer is the tail,
  the tail's back pointer is the head, so \<open>front()\<close> is the tail and \<open>back()\<close> the head;
  the sentinels are the same two nodes and the engine is well formed.
\<close>

theorem remove_all_empties:
  fixes s :: "'a::linorder sl_impl"
  assumes "sl_inv s"
  shows "\<exists>s'. remove_all s = Some (Inr s') \<and> size_sl s' = 0 \<and> (\<forall>a. \<not> stored s' a) \<and>
           m_head s' = m_head s \<and> m_tail s' = m_tail s \<and>
           (\<forall>L\<le>max_levels. nxt (heap s') L (m_head s') = Some (m_tail s')) \<and>
           prv (heap s') (m_tail s') = Some (m_head s') \<and>
           front_sl s' = Inr (Some (m_tail s')) \<and> back_sl s' = Inr (Some (m_head s')) \<and>
           sl_inv s'"
proof -
  from assms obtain C where rep: "sl_rep s C" unfolding sl_inv_def by blast
  from remove_all_rep[OF rep] obtain h' where
    r: "remove_all s = Some (Inr (s\<lparr>heap := h', m_size := 0\<rparr>))"
      "sl_rep (s\<lparr>heap := h', m_size := 0\<rparr>) (\<lambda>K. [])"
      "\<forall>L\<le>max_levels. nxt h' L (m_head s) = Some (m_tail s)"
      "prv h' (m_tail s) = Some (m_head s)"
      "\<forall>a. (h' a \<noteq> None) = (a = m_head s \<or> a = m_tail s)"
    by blast
  let ?s' = "s\<lparr>heap := h', m_size := 0\<rparr>"
  obtain hn tn where n: "h' (m_head s) = Some hn" "h' (m_tail s) = Some tn"
    using r(5) by (metis not_Some_eq)
  have l: "0 < len h' (m_head s)" using r(3) nxt_Some_live[of h' 0 "m_head s" "m_tail s"] by simp
  have "front_sl ?s' = Inr (Some (m_tail s))"
    using n(1) l r(3) by (simp add: front_sl_def load_Some next_at_nxt[where h=h' and a="m_head s"])
  moreover have "back_sl ?s' = Inr (Some (m_head s))"
    using n(2) r(4) by (simp add: back_sl_def load_Some prv_def)
  moreover have "\<forall>a. \<not> stored ?s' a" using r(5) by (auto simp: stored_def)
  moreover have "sl_inv ?s'" using r(2) unfolding sl_inv_def by blast
  ultimately show ?thesis
    using r(1,3,4) by (intro exI[of _ ?s']) (simp add: size_sl_def)
qed

text \<open>An engine that holds 5 and 7: after \<open>remove_all\<close> both traversals are empty.\<close>

theorem remove_all_empties_witness:
  "\<exists>s s'. run int_min int_max (inserts [(5, \<lambda>i. 1), (7, \<lambda>i. 0)]) = Some (Inr s) \<and> sl_inv s \<and>
     size_sl s = 2 \<and> remove_all s = Some (Inr s') \<and> size_sl s' = 0 \<and>
     front_sl s' = Inr (Some 1) \<and> back_sl s' = Inr (Some 0) \<and> sl_inv s'"
proof -
  from sl_inv_inserts[of int_min int_max "[(5, \<lambda>i. 1), (7, \<lambda>i. 0)]"]
  obtain s where s: "run int_min int_max (inserts [(5, \<lambda>i. 1), (7, \<lambda>i. 0)]) = Some (Inr s)"
    and inv: "sl_inv s" by blast
  have "(case run int_min int_max (inserts [(5, \<lambda>i. 1), (7, \<lambda>i. 0)]) of
           Some (Inr s) \<Rightarrow> size_sl s = 2 \<and> m_head s = 0 \<and> m_tail s = 1
         | _ \<Rightarrow> False)"
    by code_simp
  with s have ev: "size_sl s = 2" "m_head s = 0" "m_tail s = 1" by simp_all
  from remove_all_empties[OF inv] s inv ev show ?thesis by auto
qed

section \<open>\<open>insert\<close> with a hint\<close>

text \<open>
  C10. In a well-formed engine, \<open>insert(value, hint)\<close> with a stored node as the hint
  whose level is below the level drawn for the new node: the call returns a fresh node of
  the drawn level. The descent starts at the hint's level, so on every level above it no
  forward pointer changes and the chain is the old chain, without the new node; the new
  node's own forward pointers on the levels above the hint's level, up to its own level,
  are null. On every level up to the hint's level the new node is on the chain.
\<close>

theorem insert_with_shallow_hint:
  fixes s :: "'a::linorder sl_impl"
  assumes "sl_inv s" "stored s hint" "lev (heap s) hint < random_level rnd"
  shows "\<exists>s'. insert_sl s v rnd (Some hint) = Some (Inr (s', brk s)) \<and>
           \<not> stored s (brk s) \<and> stored s' (brk s) \<and>
           lev (heap s') (brk s) = random_level rnd \<and>
           len (heap s') (brk s) = random_level rnd + 1 \<and>
           (\<forall>L\<le>lev (heap s) hint. \<exists>xs. level_nodes s' L = Some (Inr xs) \<and> brk s \<in> set xs) \<and>
           (\<forall>L a. lev (heap s) hint < L \<longrightarrow> nxt (heap s') L a = nxt (heap s) L a) \<and>
           (\<forall>L. lev (heap s) hint < L \<and> L \<le> random_level rnd \<longrightarrow>
              nxt (heap s') L (brk s) = None) \<and>
           (\<forall>L. lev (heap s) hint < L \<and> L \<le> max_levels \<longrightarrow>
              (\<exists>xs. level_nodes s L = Some (Inr xs) \<and> level_nodes s' L = Some (Inr xs) \<and>
                 brk s \<notin> set xs))"
proof -
  let ?h = "heap s" and ?hp = "m_head s" and ?t = "m_tail s" and ?n = "brk s"
  from assms(1) obtain C where rep: "sl_rep s C" unfolding sl_inv_def by blast
  define nl where "nl = random_level rnd"
  define L0 where "L0 = lev ?h hint"
  define p where "p = pos (below ?h v) ?hp C L0 hint"
  have hin: "hint \<in> set (C 0)" using assms(2) sl_rep_stored[OF rep] by simp
  have st1: "hint = (case Some hint of None \<Rightarrow> ?hp | Some a \<Rightarrow> a)" by simp
  have st2: "hint \<in> set (?hp # C 0)" using hin by simp
  note E = insert_sl_effect[OF rep st1 st2, where rnd=rnd and v=v,
      unfolded nl_def[symmetric] L0_def[symmetric] p_def[symmetric]]
  from E obtain h' where eff:
      "insert_sl s v rnd (Some hint) =
           Some (Inr (s\<lparr>heap := h', brk := Suc ?n, m_size := m_size s + 1\<rparr>, ?n))"
      "\<And>a. (h' a = None) = (a \<noteq> ?n \<and> ?h a = None)"
      "\<And>a. lev h' a = (if a = ?n then nl else lev ?h a)"
      "\<And>a. len h' a = (if a = ?n then nl + 1 else len ?h a)"
      "\<And>K a. nxt h' K a =
            (if K \<le> L0 \<and> K \<le> nl \<and> a = p K then Some ?n
             else if K \<le> L0 \<and> K \<le> nl \<and> a = ?n then nxt ?h K (p K)
             else if a = ?n then None else nxt ?h K a)"
    by blast
  let ?s' = "s\<lparr>heap := h', brk := Suc ?n, m_size := m_size s + 1\<rparr>"
  have lt: "L0 < nl" using assms(3) by (simp add: L0_def nl_def)
  have L0: "L0 \<le> max_levels" and hst: "hint \<in> set (?hp # C L0)"
    using sl_rep_start[OF rep st2] by (simp_all add: L0_def)
  have fresh: "?h ?n = None" using rep by (simp add: sl_rep_fresh)
  have nfresh: "\<And>K. nxt ?h K ?n = None" using fresh by (simp add: nxt_def)
  have notin: "\<And>K. K \<le> max_levels \<Longrightarrow> ?n \<notin> set (?hp # C K @ [?t])"
  proof -
    fix K assume "K \<le> max_levels"
    then have "?n \<notin> set (?hp # C K)" using rep by (intro sl_rep_fresh_notin)
    moreover have "?n \<noteq> ?t" using fresh sl_rep_tail[OF rep] by auto
    ultimately show "?n \<notin> set (?hp # C K @ [?t])" by simp
  qed
  have nest: "\<And>K. K < L0 \<Longrightarrow> set (C (Suc K)) \<subseteq> set (C K)"
    using sl_rep_nested[OF rep] L0 by simp
  have pin: "\<And>K. K \<le> L0 \<Longrightarrow> p K \<in> set (?hp # C K)"
    unfolding p_def using hst nest by (rule pos_in)
  have low: "\<forall>L\<le>L0. \<exists>xs. level_nodes ?s' L = Some (Inr xs) \<and> ?n \<in> set xs"
  proof (intro allI impI)
    fix L assume L: "L \<le> L0"
    then have Lm: "L \<le> max_levels" using L0 by simp
    have old: "lvl ?h ?hp ?t L (C L)" using rep Lm by (rule sl_rep_lvl)
    have d: "distinct (?hp # C L @ [?t])" using rep Lm by (rule sl_rep_distinct)
    have pn: "p L \<noteq> ?n" using pin[OF L] notin[OF Lm] by auto
    have "path h' L ?hp (splice (p L) ?n ?hp (C L)) ?t"
    proof (rule path_splice)
      show "path ?h L ?hp (C L) ?t" using old by (simp add: lvl_def)
      show "p L \<in> set (?hp # C L)" using L by (rule pin)
      show "distinct (?hp # C L)" using d by simp
      show "?n \<notin> set (?hp # C L)" using notin[OF Lm] by simp
      show "nxt h' L ?n = nxt ?h L (p L)" using L lt pn by (simp add: eff(5))
      show "nxt h' L (p L) = Some ?n" using L lt by (simp add: eff(5))
      show "\<And>x. x \<in> set (?hp # C L) \<Longrightarrow> x \<noteq> p L \<Longrightarrow> nxt h' L x = nxt ?h L x"
        using notin[OF Lm] by (auto simp: eff(5))
    qed
    moreover have "set (splice (p L) ?n ?hp (C L)) = insert ?n (set (C L))"
      using pin[OF L] by (rule set_splice)
    moreover have "?t \<notin> insert ?n (set (C L))" using d notin[OF Lm] by auto
    ultimately have "level_nodes ?s' L = Some (Inr (splice (p L) ?n ?hp (C L)))"
      by (intro level_nodes_path) simp_all
    then show "\<exists>xs. level_nodes ?s' L = Some (Inr xs) \<and> ?n \<in> set xs"
      using pin[OF L] by (simp add: set_splice)
  qed
  have above: "\<forall>L a. L0 < L \<longrightarrow> nxt h' L a = nxt ?h L a"
    using nfresh by (simp add: eff(5))
  have null: "\<forall>L. L0 < L \<and> L \<le> nl \<longrightarrow> nxt h' L ?n = None"
    by (simp add: eff(5))
  have high: "\<forall>L. L0 < L \<and> L \<le> max_levels \<longrightarrow>
      (\<exists>xs. level_nodes s L = Some (Inr xs) \<and> level_nodes ?s' L = Some (Inr xs) \<and> ?n \<notin> set xs)"
  proof (intro allI impI)
    fix L assume L: "L0 < L \<and> L \<le> max_levels"
    then have Lm: "L \<le> max_levels" by simp
    have old: "lvl ?h ?hp ?t L (C L)" using rep Lm by (rule sl_rep_lvl)
    have "path h' L ?hp (C L) ?t = path ?h L ?hp (C L) ?t"
      using above L by (intro path_frame) simp
    then have "path h' L ?hp (C L) ?t" using old by (simp add: lvl_def)
    moreover have "?t \<notin> set (C L)" using old by (simp add: lvl_def)
    ultimately have "level_nodes ?s' L = Some (Inr (C L))" by (intro level_nodes_path) simp_all
    moreover have "level_nodes s L = Some (Inr (C L))" using rep Lm by (rule sl_rep_level_nodes)
    ultimately show "\<exists>xs. level_nodes s L = Some (Inr xs) \<and>
        level_nodes ?s' L = Some (Inr xs) \<and> ?n \<notin> set xs"
      using notin[OF Lm] by simp
  qed
  have st: "\<not> stored s ?n" using fresh by (simp add: stored_def)
  have "?n \<noteq> ?hp" "?n \<noteq> ?t" using notin[of 0] by auto
  then have st': "stored ?s' ?n" using eff(2)[of ?n] by (simp add: stored_def)
  have "lev h' ?n = nl" "len h' ?n = nl + 1" by (simp_all add: eff(3,4))
  with eff(1) st st' low above null high show ?thesis
    unfolding nl_def L0_def by (intro exI[of _ ?s']) simp
qed

text \<open>
  The engine that holds 5 in a node of level 1 (handle 2); \<open>insert(9, hint)\<close> with that
  node as hint draws level 5. The new node (handle 3) is on the chains of the levels 0
  and 1 only; the chain of level 2 is empty and the node's pointer there is null.
\<close>

theorem insert_with_shallow_hint_witness:
  "\<exists>s s'. run int_min int_max (inserts [(5, \<lambda>i. 1)]) = Some (Inr s) \<and> sl_inv s \<and> stored s 2 \<and>
     lev (heap s) 2 = 1 \<and> random_level (\<lambda>i. 0) = 5 \<and>
     insert_sl s 9 (\<lambda>i. 0) (Some 2) = Some (Inr (s', 3)) \<and> lev (heap s') 3 = 5 \<and>
     level_nodes s' 1 = Some (Inr [2, 3]) \<and> level_nodes s' 2 = Some (Inr []) \<and>
     nxt (heap s') 2 3 = None"
proof -
  from sl_inv_inserts[of int_min int_max "[(5, \<lambda>i. 1)]"]
  obtain s where s: "run int_min int_max (inserts [(5, \<lambda>i. 1)]) = Some (Inr s)"
    and inv: "sl_inv s" by blast
  have "(case run int_min int_max (inserts [(5, \<lambda>i. 1)]) of
           Some (Inr s) \<Rightarrow> stored s 2 \<and> lev (heap s) 2 = 1 \<and> brk s = 3 \<and>
             (case insert_sl s 9 (\<lambda>i. 0) (Some 2) of
                Some (Inr (s', a)) \<Rightarrow> level_nodes s' 1 = Some (Inr [2, 3]) \<and>
                  level_nodes s' 2 = Some (Inr [])
              | _ \<Rightarrow> False)
         | _ \<Rightarrow> False) \<and> random_level (\<lambda>i. 0) = 5"
    by code_simp
  with s have ev: "stored s 2" "lev (heap s) 2 = 1" "brk s = 3" "random_level (\<lambda>i. 0) = 5"
      "(case insert_sl s 9 (\<lambda>i. 0) (Some 2) of
                Some (Inr (s', a)) \<Rightarrow> level_nodes s' 1 = Some (Inr [2, 3]) \<and>
                  level_nodes s' 2 = Some (Inr [])
              | _ \<Rightarrow> False)"
    by simp_all
  have lt: "lev (heap s) 2 < random_level (\<lambda>i. 0)" using ev by simp
  from insert_with_shallow_hint[OF inv ev(1) lt, of 9]
  obtain s' where s': "insert_sl s 9 (\<lambda>i. 0) (Some 2) = Some (Inr (s', brk s))"
      "lev (heap s') (brk s) = random_level (\<lambda>i. 0)"
      "\<forall>L. lev (heap s) 2 < L \<and> L \<le> random_level (\<lambda>i. 0) \<longrightarrow> nxt (heap s') L (brk s) = None"
    by blast
  from s'(3)[rule_format, of 2] ev have "nxt (heap s') 2 3 = None" by simp
  with s inv ev s' show ?thesis by auto
qed

subsection \<open>The order of equal values after a program of inserts\<close>

lemma sl_rep_below_brk:
  assumes "sl_rep s C" "a \<in> set (C 0)"
  shows "a < brk s"
proof (rule ccontr)
  assume "\<not> a < brk s"
  then have "heap s a = None" using assms(1) by (intro sl_rep_fresh) simp_all
  then show False using sl_rep_live[OF assms(1), of a] assms(2) by simp
qed

lemma steps_inserts_order:
  fixes s :: "'a::linorder sl_impl"
  assumes "sl_rep s C" "sorted_wrt (newer_first (heap s)) (C 0)"
  shows "\<exists>s' C'. steps s (inserts vs) = Some (Inr s') \<and> sl_rep s' C' \<and>
           sorted_wrt (newer_first (heap s')) (C' 0) \<and> brk s' = brk s + length vs \<and>
           m_head s' = m_head s \<and> m_tail s' = m_tail s \<and>
           (\<forall>a. a < brk s \<longrightarrow> val (heap s') a = val (heap s) a) \<and>
           (\<forall>i<length vs. val (heap s') (brk s + i) = Some (fst (vs ! i)) \<and>
              stored s' (brk s + i))"
  using assms
proof (induction vs arbitrary: s C)
  case Nil
  then show ?case by (auto simp: inserts_def)
next
  case (Cons x vs)
  obtain v rnd where x: "x = (v, rnd)" by (cases x)
  let ?h = "heap s" and ?n = "brk s"
  define nl where "nl = random_level rnd"
  define C1 where "C1 = (\<lambda>K. if K \<le> nl then ins_chain (below ?h v) ?n (C K) else C K)"
  from insert_sl_rep[OF Cons.prems(1), of v rnd]
  obtain h' where ins:
      "insert_sl s v rnd None =
         Some (Inr (s\<lparr>heap := h', brk := Suc ?n, m_size := m_size s + 1\<rparr>, ?n))"
      "sl_rep (s\<lparr>heap := h', brk := Suc ?n, m_size := m_size s + 1\<rparr>) C1"
      "\<And>a. val h' a = (if a = ?n then Some v else val ?h a)"
    unfolding nl_def[symmetric] C1_def[symmetric] by blast
  let ?s1 = "s\<lparr>heap := h', brk := Suc ?n, m_size := m_size s + 1\<rparr>"
  define tk dr where "tk = takeWhile (below ?h v) (C 0)" and "dr = dropWhile (below ?h v) (C 0)"
  have split: "tk @ dr = C 0" by (simp add: tk_def dr_def)
  have c10: "C1 0 = tk @ ?n # dr" by (simp add: C1_def ins_chain_def tk_def dr_def)
  have old_lt: "\<And>a. a \<in> set (C 0) \<Longrightarrow> a < ?n"
    using Cons.prems(1) by (rule sl_rep_below_brk)
  have sub: "set tk \<subseteq> set (C 0)" "set dr \<subseteq> set (C 0)" unfolding split[symmetric] by auto
  have same: "\<And>a. a \<in> set (C 0) \<Longrightarrow> val h' a = val ?h a"
    using old_lt by (auto simp: ins(3))
  have "sorted_wrt (newer_first h') (C 0)"
  proof (rule sorted_wrt_mono_rel[OF _ Cons.prems(2)])
    fix a b assume "a \<in> set (C 0)" "b \<in> set (C 0)" "newer_first ?h a b"
    then show "newer_first h' a b" using same[of a] same[of b] by (simp add: newer_first_def)
  qed
  then have "sorted_wrt (newer_first h') (tk @ dr)" by (simp add: split)
  then have parts: "sorted_wrt (newer_first h') tk" "sorted_wrt (newer_first h') dr"
      "\<forall>a\<in>set tk. \<forall>b\<in>set dr. newer_first h' a b"
    by (simp_all add: sorted_wrt_append)
  have lo: "\<forall>a\<in>set tk. newer_first h' a ?n"
  proof
    fix a assume a: "a \<in> set tk"
    then have "below ?h v a" unfolding tk_def using set_takeWhileD[of a "below ?h v" "C 0"] by blast
    then have "val ?h a \<noteq> Some v" by (simp add: below_upto)
    moreover have "val h' a = val ?h a" using a sub same by blast
    ultimately show "newer_first h' a ?n" by (simp add: newer_first_def ins(3))
  qed
  have hi: "\<forall>b\<in>set dr. newer_first h' ?n b"
  proof
    fix b assume "b \<in> set dr"
    then have "b < ?n" using sub old_lt by blast
    then show "newer_first h' ?n b" by (simp add: newer_first_def)
  qed
  have s1: "sorted_wrt (newer_first (heap ?s1)) (C1 0)"
    unfolding c10 using parts lo hi by (simp add: sorted_wrt_append)
  from Cons.IH[OF ins(2) s1]
  obtain s' C' where r: "steps ?s1 (inserts vs) = Some (Inr s')" "sl_rep s' C'"
      "sorted_wrt (newer_first (heap s')) (C' 0)" "brk s' = brk ?s1 + length vs"
      "\<forall>a. a < brk ?s1 \<longrightarrow> val (heap s') a = val (heap ?s1) a"
      "\<forall>i<length vs. val (heap s') (brk ?s1 + i) = Some (fst (vs ! i)) \<and>
              stored s' (brk ?s1 + i)"
      "m_head s' = m_head ?s1" "m_tail s' = m_tail ?s1"
    by blast
  have run: "steps s (inserts (x # vs)) = Some (Inr s')"
    using ins(1) r(1) by (simp add: inserts_def x)
  have b: "brk s' = ?n + length (x # vs)" using r(4) by simp
  have keep: "\<forall>a. a < ?n \<longrightarrow> val (heap s') a = val ?h a"
    using r(5) by (simp add: ins(3))
  have vn: "val (heap s') ?n = Some v" using r(5) by (simp add: ins(3))
  have "heap s' ?n \<noteq> None" using vn by (auto simp: val_def)
  moreover have "?n \<noteq> m_head s' \<and> ?n \<noteq> m_tail s'"
  proof -
    have "?n \<in> set (C1 0)" by (simp add: c10)
    then have st1: "stored ?s1 ?n" using sl_rep_stored[OF ins(2)] by simp
    have hd: "m_head s' = m_head ?s1 \<and> m_tail s' = m_tail ?s1"
      using r(7,8) by simp
    with st1 show ?thesis by (simp add: stored_def)
  qed
  ultimately have stn: "stored s' ?n" by (simp add: stored_def)
  have hs: "\<forall>i<length (x # vs). val (heap s') (?n + i) = Some (fst ((x # vs) ! i)) \<and>
              stored s' (?n + i)"
  proof (intro allI impI)
    fix i assume i: "i < length (x # vs)"
    show "val (heap s') (?n + i) = Some (fst ((x # vs) ! i)) \<and> stored s' (?n + i)"
    proof (cases i)
      case 0
      then show ?thesis using vn stn x by simp
    next
      case (Suc j)
      with i have "j < length vs" by simp
      with r(6) Suc show ?thesis by simp
    qed
  qed
  have ht: "m_head s' = m_head s" "m_tail s' = m_tail s" using r(7,8) by simp_all
  from run r(2,3) b ht keep hs show ?case by blast
qed

text \<open>
  A program of inserts without a hint, run on a fresh engine: the \<open>i\<close>-th call returns the
  handle \<open>2 + i\<close>, which holds the \<open>i\<close>-th value, and the forward walk of the bottom
  level meets, of two nodes with the same value, the one inserted later first.
\<close>

lemma inserts_newest_first:
  fixes vmin vmax :: "'a::linorder"
  shows "\<exists>s xs. run vmin vmax (inserts vs) = Some (Inr s) \<and> sl_inv s \<and>
           forward_nodes s = Some (Inr xs) \<and> sorted_wrt (newer_first (heap s)) xs \<and>
           (\<forall>i<length vs. val (heap s) (2 + i) = Some (fst (vs ! i)) \<and> stored s (2 + i))"
proof -
  from sl_init_rep[of vmin vmax] obtain s0 where
    s0: "sl_init vmin vmax = Inr s0" "sl_rep s0 (\<lambda>K. [])" "brk s0 = 2" by blast
  have "sorted_wrt (newer_first (heap s0)) ((\<lambda>K. []) (0::nat))" by simp
  from steps_inserts_order[OF s0(2) this, of vs] obtain s C where
    r: "steps s0 (inserts vs) = Some (Inr s)" "sl_rep s C"
       "sorted_wrt (newer_first (heap s)) (C 0)"
       "\<forall>i<length vs. val (heap s) (brk s0 + i) = Some (fst (vs ! i)) \<and> stored s (brk s0 + i)"
    by blast
  have "run vmin vmax (inserts vs) = Some (Inr s)" using s0(1) r(1) by (simp add: run_def)
  moreover have "sl_inv s" using r(2) unfolding sl_inv_def by blast
  moreover have "forward_nodes s = Some (Inr (C 0))" using r(2) by (rule sl_rep_forward)
  moreover have "\<forall>i<length vs. val (heap s) (2 + i) = Some (fst (vs ! i)) \<and> stored s (2 + i)"
    using r(4) by (simp add: s0(3))
  ultimately show ?thesis using r(3) by blast
qed

end
